theory Spec2Isabelle
  imports Main "HOL-Library.Multiset"
begin

section \<open>Regular expressions of \<open>src/index.js\<close>\<close>

text \<open>
  The source uses three regular-expression literals, none with flags:
  \<^item> \<^verbatim>\<open>/\.?\/.+\/index\.tsx$/\<close> (the default \<open>regularExpression\<close> option),
  \<^item> \<^verbatim>\<open>/^.+\.?\/([^/]+)\/index\.tsx/\<close> (\<open>componentName\<close> in \<open>cleanKeys\<close>),
  \<^item> \<^verbatim>\<open>/^.+\.?\/([^/]+\/[^/]+)\/index\.tsx/\<close> (\<open>from\<close> in \<open>cleanKeys\<close>).
  They are written below as lists of atoms and run by a backtracking matcher with the
  priorities of the JavaScript engine: a greedy quantifier first tries to consume as much
  as it can and gives back one position at a time; the first start position with a
  match wins.

  A string is the list of the bytes of its UTF-8 form. Without the \<open>s\<close> flag the dot
  matches every character except the four line terminators: line feed, carriage return,
  U+2028 and U+2029; the last two are the byte sequences \<open>E2 80 A8\<close> and \<open>E2 80 A9\<close>.
  \<open>dot_run s\<close> is the number of bytes at the front of \<open>s\<close> a run of dots can consume. In
  the three expressions every atom next to a class is an ASCII character, so a match
  never begins or ends inside a character of several bytes.
\<close>

datatype cls = AnyChar | NotSlash

definition line_terminator_at :: "string \<Rightarrow> bool" where
  "line_terminator_at s =
     (case s of
        [] \<Rightarrow> False
      | c # cs \<Rightarrow>
          c = CHR 0x0A \<or> c = CHR 0x0D
          \<or> (c = CHR 0xE2
              \<and> (take 2 cs = [CHR 0x80, CHR 0xA8] \<or> take 2 cs = [CHR 0x80, CHR 0xA9])))"

fun dot_run :: "string \<Rightarrow> nat" where
  "dot_run [] = 0"
| "dot_run (c # cs) = (if line_terminator_at (c # cs) then 0 else Suc (dot_run cs))"

fun cls_run :: "cls \<Rightarrow> string \<Rightarrow> nat" where
  "cls_run AnyChar s = dot_run s"
| "cls_run NotSlash s = length (takeWhile (\<lambda>c. c \<noteq> CHR ''/'') s)"

datatype atom = Bol | Eol | Chr char | Opt char | Plus cls | GOpen | GClose

definition grow :: "bool \<Rightarrow> string \<Rightarrow> string \<Rightarrow> string" where
  "grow on g t = (if on then g @ t else g)"

text \<open>
  \<open>rmatch as k on g s\<close> matches the atoms \<open>as\<close> against the rest \<open>s\<close> of the subject,
  \<open>k\<close> bytes into it; \<open>g\<close> is the text captured so far by group 1 and \<open>on\<close> says
  whether the group is open. The result is the capture and the unread rest.
\<close>

fun rmatch :: "atom list \<Rightarrow> nat \<Rightarrow> bool \<Rightarrow> string \<Rightarrow> string \<Rightarrow> (string \<times> string) option"
and rplus :: "atom list \<Rightarrow> nat \<Rightarrow> bool \<Rightarrow> string \<Rightarrow> string \<Rightarrow> nat \<Rightarrow> (string \<times> string) option"
where
  "rmatch [] k on g s = Some (g, s)"
| "rmatch (Bol # r) k on g s = (if k = 0 then rmatch r k on g s else None)"
| "rmatch (Eol # r) k on g s = (if s = [] then rmatch r k on g s else None)"
| "rmatch (Chr c # r) k on g s =
     (case s of [] \<Rightarrow> None
      | x # xs \<Rightarrow> if x = c then rmatch r (Suc k) on (grow on g [x]) xs else None)"
| "rmatch (Opt c # r) k on g s =
     (case s of [] \<Rightarrow> rmatch r k on g s
      | x # xs \<Rightarrow>
          if x = c then
            (case rmatch r (Suc k) on (grow on g [x]) xs of
               Some m \<Rightarrow> Some m
             | None \<Rightarrow> rmatch r k on g s)
          else rmatch r k on g s)"
| "rmatch (Plus C # r) k on g s = rplus r k on g s (cls_run C s)"
| "rmatch (GOpen # r) k on g s = rmatch r k True [] s"
| "rmatch (GClose # r) k on g s = rmatch r k False g s"
| "rplus r k on g s 0 = None"
| "rplus r k on g s (Suc n) =
     (case rmatch r (k + Suc n) on (grow on g (take (Suc n) s)) (drop (Suc n) s) of
        Some m \<Rightarrow> Some m
      | None \<Rightarrow> rplus r k on g s n)"

text \<open>The search for the first start position, \<open>k\<close> bytes into the subject; the result
  is the number of bytes before the match, the capture and the rest after the match.\<close>

fun rsearch :: "atom list \<Rightarrow> nat \<Rightarrow> string \<Rightarrow> (nat \<times> string \<times> string) option" where
  "rsearch r k s =
     (case rmatch r k False [] s of
        Some (g, rest) \<Rightarrow> Some (k, g, rest)
      | None \<Rightarrow> (case s of [] \<Rightarrow> None | x # xs \<Rightarrow> rsearch r (Suc k) xs))"

text \<open>\<open>String.prototype.replace\<close> with a regular expression without flags (a literal,
  so a new object with \<open>lastIndex = 0\<close> at every evaluation) and a replacement of the form
  \<open>pre$1\<close>: the first match is replaced, a subject without a match is returned as it
  is.\<close>

definition regex_replace :: "atom list \<Rightarrow> string \<Rightarrow> string \<Rightarrow> string" where
  "regex_replace r pre s =
     (case rsearch r 0 s of
        None \<Rightarrow> s
      | Some (k, g, rest) \<Rightarrow> take k s @ pre @ g @ rest)"

definition lit :: "string \<Rightarrow> atom list" where
  "lit s = map Chr s"

definition default_regularExpression :: "atom list" where
  "default_regularExpression =
     [Opt CHR ''.'', Chr CHR ''/'', Plus AnyChar] @ lit ''/index.tsx'' @ [Eol]"

definition componentName_re :: "atom list" where
  "componentName_re =
     [Bol, Plus AnyChar, Opt CHR ''.'', Chr CHR ''/'', GOpen, Plus NotSlash, GClose]
     @ lit ''/index.tsx''"

definition from_re :: "atom list" where
  "from_re =
     [Bol, Plus AnyChar, Opt CHR ''.'', Chr CHR ''/'',
      GOpen, Plus NotSlash, Chr CHR ''/'', Plus NotSlash, GClose]
     @ lit ''/index.tsx''"

subsection \<open>The \<open>RegExp\<close> object of the \<open>regularExpression\<close> option\<close>

text \<open>
  The option is an object the caller supplies and \<open>readDirectory\<close> calls its \<open>test\<close>
  method, so the object is modelled with its state. \<open>exec re i s\<close> is the search the
  expression makes in \<open>s\<close> from index \<open>i\<close> (at \<open>i\<close> only under the \<open>y\<close> flag, nowhere when
  \<open>i\<close> is beyond the end): the index at which the match it finds ends. \<open>test\<close> is
  \<open>RegExpBuiltinExec\<close>: with the \<open>g\<close> or \<open>y\<close> flag the search starts at \<open>lastIndex\<close>, a
  match moves \<open>lastIndex\<close> to its end and a failure resets it to 0; without these
  flags the search starts at 0 and \<open>lastIndex\<close> is left alone.
\<close>

record RegExp =
  exec :: "nat \<Rightarrow> string \<Rightarrow> nat option"
  global :: bool
  sticky :: bool
  lastIndex :: nat

definition test :: "RegExp \<Rightarrow> string \<Rightarrow> bool \<times> RegExp" where
  "test re s =
     (let remembers = (global re \<or> sticky re);
          i = (if remembers then lastIndex re else 0)
      in case exec re i s of
           None \<Rightarrow> (False, if remembers then re\<lparr>lastIndex := 0\<rparr> else re)
         | Some e \<Rightarrow> (True, if remembers then re\<lparr>lastIndex := e\<rparr> else re))"

text \<open>The object a literal \<open>/atoms/\<close> (\<open>g = False\<close>) or \<open>/atoms/g\<close> (\<open>g = True\<close>)
  evaluates to. On a subject of ASCII characters a byte is a code unit, so the indices
  are the ones of the engine.\<close>

definition atoms_exec :: "atom list \<Rightarrow> nat \<Rightarrow> string \<Rightarrow> nat option" where
  "atoms_exec r i s =
     (if length s < i then None
      else case rsearch r i (drop i s) of
             None \<Rightarrow> None
           | Some (k, g, rest) \<Rightarrow> Some (length s - length rest))"

definition regexp :: "atom list \<Rightarrow> bool \<Rightarrow> RegExp" where
  "regexp r g = \<lparr> exec = atoms_exec r, global = g, sticky = False, lastIndex = 0 \<rparr>"

section \<open>\<open>Atomic.cleanKeys\<close>\<close>

record CleanKeys =
  key :: string
  componentName :: string
  "from" :: string

definition cleanKey :: "string \<Rightarrow> CleanKeys" where
  "cleanKey k =
     \<lparr> key = k,
       componentName = regex_replace componentName_re '''' k,
       from = regex_replace from_re ''./'' k \<rparr>"

definition cleanKeys :: "string list \<Rightarrow> CleanKeys list" where
  "cleanKeys ks = map cleanKey ks"

section \<open>\<open>equalsIgnoreOrder\<close>\<close>

text \<open>\<open>new Set(xs)\<close> iterates in the order of first insertion.\<close>

definition newSet :: "'a list \<Rightarrow> 'a list" where
  "newSet xs = fold (\<lambda>x acc. if x \<in> set acc then acc else acc @ [x]) xs []"

fun forOf :: "string list \<Rightarrow> string list \<Rightarrow> string list \<Rightarrow> bool" where
  "forOf [] a b = True"
| "forOf (v # vs) a b =
     (let aCount = length (filter (\<lambda>e. e = v) a);
          bCount = length (filter (\<lambda>e. e = v) b)
      in if aCount \<noteq> bCount then False else forOf vs a b)"

definition equalsIgnoreOrder :: "string list \<Rightarrow> string list \<Rightarrow> bool" where
  "equalsIgnoreOrder a b =
     (if length a \<noteq> length b then False else forOf (newSet (a @ b)) a b)"

section \<open>The file system\<close>

text \<open>
  What the program sees of the disk is the tree at the resolved base directory and the
  file at the resolved output path. A node of the tree is
  \<^item> \<open>File\<close>: anything \<open>statSync\<close> reaches that is not a directory;
  \<^item> \<open>Dir es\<close>: a directory with its entries in the order \<open>readdirSync\<close> lists them;
  \<^item> \<open>Locked err es\<close>: a directory \<open>readdirSync\<close> refuses with \<open>err\<close>, whose entries
    \<open>es\<close> can still be reached by name;
  \<^item> \<open>Absent err\<close>: a name behind which \<open>statSync\<close> and \<open>accessSync\<close> throw \<open>err\<close> (a
    dangling link, an entry of a directory without search permission, or, as the root
    of the tree, a base directory that cannot be reached).
  The stored keys are paths below the base directory, so a path exists exactly when
  the tree has a node other than \<open>Absent\<close> there.
\<close>

datatype fs_error = ENOENT | ENOTDIR | EACCES | EISDIR | ENOSPC | Errno string

datatype node =
  File
| Dir "(string \<times> node) list"
| Locked fs_error "(string \<times> node) list"
| Absent fs_error

text \<open>
  \<open>out_access\<close> is the error \<open>accessSync\<close> throws on the resolved output path, if any.
  \<open>out_write_failure\<close> is \<open>None\<close> when \<open>writeFileSync\<close> succeeds there. It is
  \<open>Some (err, None)\<close> when opening the file fails with \<open>err\<close>, which leaves the file
  untouched, and \<open>Some (err, Some n)\<close> when the file is opened, and so truncated, and
  writing fails with \<open>err\<close> after the first \<open>n\<close> bytes of the data.
\<close>

record world =
  base_node :: node
  out_access :: "fs_error option"
  out_write_failure :: "(fs_error \<times> nat option) option"
  out_content :: string

text \<open>\<open>path.resolve(directory, file)\<close> for an absolute, normalised directory and an
  entry name.\<close>

definition resolve :: "string \<Rightarrow> string \<Rightarrow> string" where
  "resolve directory file =
     (if directory = ''/'' then directory @ file else directory @ ''/'' @ file)"

text \<open>\<open>fs.statSync(p).isDirectory()\<close>\<close>

fun statSync_isDirectory :: "node \<Rightarrow> fs_error + bool" where
  "statSync_isDirectory (Absent err) = Inl err"
| "statSync_isDirectory File = Inr False"
| "statSync_isDirectory (Dir es) = Inr True"
| "statSync_isDirectory (Locked err es) = Inr True"

text \<open>\<open>fs.accessSync(p, F_OK)\<close> on the root of a tree: the error thrown, if any.\<close>

fun accessSync :: "node \<Rightarrow> fs_error option" where
  "accessSync (Absent err) = Some err"
| "accessSync File = None"
| "accessSync (Dir es) = None"
| "accessSync (Locked err es) = None"

text \<open>\<open>fs.accessSync(p, F_OK)\<close> returns for a path \<open>p\<close> of the tree rooted at
  \<open>d\<close> exactly when a node other than \<open>Absent\<close> is there.\<close>

fun existsAt :: "node \<Rightarrow> string \<Rightarrow> string \<Rightarrow> bool"
and existsIn :: "(string \<times> node) list \<Rightarrow> string \<Rightarrow> string \<Rightarrow> bool" where
  "existsAt (Absent err) d p = False"
| "existsAt File d p = (p = d)"
| "existsAt (Locked err es) d p = (p = d \<or> existsIn es d p)"
| "existsAt (Dir es) d p = (p = d \<or> existsIn es d p)"
| "existsIn [] d p = False"
| "existsIn ((name, n) # es) d p = (existsAt n (resolve d name) p \<or> existsIn es d p)"

text \<open>\<open>fs.writeFileSync(resolvedOutput, data)\<close>: the error thrown, if any, and the disk
  afterwards.\<close>

definition writeFileSync :: "world \<Rightarrow> string \<Rightarrow> fs_error option \<times> world" where
  "writeFileSync w data =
     (case out_write_failure w of
        None \<Rightarrow> (None, w\<lparr>out_content := data\<rparr>)
      | Some (err, None) \<Rightarrow> (Some err, w)
      | Some (err, Some n) \<Rightarrow> (Some err, w\<lparr>out_content := take n data\<rparr>))"

section \<open>The class \<open>Atomic\<close>\<close>

text \<open>
  The logger is the host's; the model records the calls made on it, oldest first. The
  parts of a template literal and the arguments of a call are listed in order.
\<close>

datatype level = Info | Error | Trace | Debug

datatype logarg = LStr string | LNum nat | LErr fs_error

type_synonym entry = "level \<times> logarg list"

text \<open>
  \<open>files\<close> is the object \<open>this.files\<close>: its keys in insertion order (every value is
  \<open>true\<close>). \<open>resolvedBase\<close> and \<open>resolvedOutput\<close> stand for
  \<open>path.resolve(this.context, this.base)\<close> and
  \<open>path.resolve(this.context, this.base, this.output)\<close>. \<open>regularExpression\<close> is the
  object of the option, with its \<open>lastIndex\<close>.
\<close>

record Atomic =
  keys :: "string list"
  files :: "string list"
  resolvedBase :: string
  resolvedOutput :: string
  header :: string
  regularExpression :: RegExp
  scanSubDirectories :: bool
  logger :: "entry list"

definition default_header :: string where
  "default_header =
     ''// @generated'' @ [CHR 0x0A]
     @ ''// This file is automatically generated and should not be edited.''
     @ [CHR 0x0A, CHR 0x0A]"

text \<open>The state after the constructor with the default options, for a given working
  context.\<close>

definition new_Atomic :: "string \<Rightarrow> string \<Rightarrow> Atomic" where
  "new_Atomic rb ro =
     \<lparr> keys = [], files = [], resolvedBase = rb, resolvedOutput = ro,
       header = default_header,
       regularExpression = regexp default_regularExpression False,
       scanSubDirectories = True, logger = [] \<rparr>"

definition log :: "level \<Rightarrow> logarg list \<Rightarrow> Atomic \<Rightarrow> Atomic" where
  "log l args a = a\<lparr>logger := logger a @ [(l, args)]\<rparr>"

text \<open>\<open>this.files[fullPath] = true\<close>\<close>

definition set_key :: "string list \<Rightarrow> string \<Rightarrow> string list" where
  "set_key fs p = (if p \<in> set fs then fs else fs @ [p])"

text \<open>
  \<open>readDirectory\<close> works on \<open>this.files\<close> and on the \<open>RegExp\<close> object, which are passed
  in and returned. An exception of \<open>readdirSync\<close> or \<open>statSync\<close> ends the walk: the result
  is then the error together with the entries stored and the state of the object at
  that point. \<open>readdirSync\<close> returns the entries of a directory and throws on every other
  node.
\<close>

fun readDirectory ::
  "node \<Rightarrow> string \<Rightarrow> bool \<Rightarrow> RegExp \<Rightarrow> string list
     \<Rightarrow> fs_error option \<times> string list \<times> RegExp"
and forEach_file ::
  "(string \<times> node) list \<Rightarrow> string \<Rightarrow> bool \<Rightarrow> RegExp \<Rightarrow> string list
     \<Rightarrow> fs_error option \<times> string list \<times> RegExp"
where
  "readDirectory (Dir es) directory sub re fs = forEach_file es directory sub re fs"
| "readDirectory File directory sub re fs = (Some ENOTDIR, fs, re)"
| "readDirectory (Locked err es) directory sub re fs = (Some err, fs, re)"
| "readDirectory (Absent err) directory sub re fs = (Some err, fs, re)"
| "forEach_file [] directory sub re fs = (None, fs, re)"
| "forEach_file ((file, n) # es) directory sub re fs =
     (let fullPath = resolve directory file in
      case statSync_isDirectory n of
        Inl err \<Rightarrow> (Some err, fs, re)
      | Inr True \<Rightarrow>
          if sub then
            (case readDirectory n fullPath sub re fs of
               (Some err, fs', re') \<Rightarrow> (Some err, fs', re')
             | (None, fs', re') \<Rightarrow> forEach_file es directory sub re' fs')
          else forEach_file es directory sub re fs
      | Inr False \<Rightarrow>
          (case test re fullPath of
             (False, re') \<Rightarrow> forEach_file es directory sub re' fs
           | (True, re') \<Rightarrow> forEach_file es directory sub re' (set_key fs fullPath)))"

definition getComponents :: "world \<Rightarrow> Atomic \<Rightarrow> fs_error option \<times> Atomic" where
  "getComponents w a =
     (let a1 = log Info [LStr ''Get Components...'', LStr (resolvedBase a)] a;
          a2 = a1\<lparr>files := []\<rparr>
      in case readDirectory (base_node w) (resolvedBase a2) (scanSubDirectories a2)
                (regularExpression a2) (files a2) of
           (Some err, fs, re') \<Rightarrow> (Some err, a2\<lparr>files := fs, regularExpression := re'\<rparr>)
         | (None, fs, re') \<Rightarrow> (None, a2\<lparr>files := fs, regularExpression := re', keys := fs\<rparr>))"

text \<open>
  An entry point either returns or lets an exception of the file system escape. The
  callbacks are the caller's code: the model ends where the callback is invoked, and the
  value returned stands for the arguments the callback receives (\<open>changes\<close> and
  \<open>this.keys\<close> for \<open>check\<close>; for \<open>run\<close> the keys, which are also its return value).
\<close>

datatype 'a outcome = Returned 'a | Threw fs_error

datatype run_result = Empty | Generated "string list"

text \<open>The first loop of \<open>check\<close>: \<open>accessSync\<close> on every stored key; whatever it throws
  is caught.\<close>

fun forEach_key :: "world \<Rightarrow> CleanKeys list \<Rightarrow> bool \<times> Atomic \<Rightarrow> bool \<times> Atomic" where
  "forEach_key w [] (changes, a) = (changes, a)"
| "forEach_key w (k # ks) (changes, a) =
     (if existsAt (base_node w) (resolvedBase a) (key k)
      then forEach_key w ks
             (changes, log Debug [LStr [CHR 0xE2, CHR 0x9C, CHR 0x93], LStr (from k)] a)
      else forEach_key w ks
             (True, log Info [LStr ''Detected component change'', LStr (from k)] a))"

definition check_report :: "bool \<Rightarrow> Atomic \<Rightarrow> Atomic" where
  "check_report changes a =
     (if changes then log Info [LStr ''Changes detected...''] a
      else log Info [LStr ''No changes...''] a)"

definition check :: "world \<Rightarrow> Atomic \<Rightarrow> (bool \<times> string list) outcome \<times> Atomic \<times> world" where
  "check w a =
     (let a1 = log Info [LStr ''Running Check''] a;
          ks = cleanKeys (keys a1);
          a2 = log Info [LStr ''...Checking keys''] a1;
          (changes, a3) = forEach_key w ks (False, a2)
      in if \<not> changes then
           (let a4 = log Info [LStr ''...Checking files''] a3;
                a5 = a4\<lparr>files := []\<rparr>
            in case readDirectory (base_node w) (resolvedBase a5) (scanSubDirectories a5)
                      (regularExpression a5) (files a5) of
                 (Some err, fs, re') \<Rightarrow>
                   (Threw err, a5\<lparr>files := fs, regularExpression := re'\<rparr>, w)
               | (None, fs, re') \<Rightarrow>
                   (let a6 = a5\<lparr>files := fs, regularExpression := re'\<rparr>;
                        fileKeys = files a6;
                        equal = equalsIgnoreOrder fileKeys (keys a6);
                        changes' = (if \<not> equal then True else changes);
                        a7 = check_report changes' a6
                    in (Returned (changes', keys a7), a7, w)))
         else
           (let a4 = check_report changes a3
            in (Returned (changes, keys a4), a4, w)))"

definition export_line :: "CleanKeys \<Rightarrow> string" where
  "export_line k =
     ''export { default as '' @ componentName k @ '' } from '' @ [CHR 0x27]
     @ from k @ [CHR 0x27, CHR 0x0A]"

definition run :: "world \<Rightarrow> Atomic \<Rightarrow> run_result outcome \<times> Atomic \<times> world" where
  "run w a =
     (let a1 = log Info [LStr ''Run...''] a in
      case accessSync (base_node w) of
        Some err \<Rightarrow>
          (Returned Empty,
           log Trace [LErr err]
             (log Error [LStr ''Unable to find '', LStr (resolvedBase a1),
                         LStr '' check your settings base''] a1),
           w)
      | None \<Rightarrow>
          (case out_access w of
             Some err \<Rightarrow>
               (Returned Empty,
                log Trace [LErr err]
                  (log Error [LStr ''Unable to find '', LStr (resolvedOutput a1),
                              LStr '' check your [output] and [base] options''] a1),
                w)
           | None \<Rightarrow>
               (case getComponents w a1 of
                  (Some err, a2) \<Rightarrow> (Threw err, a2, w)
                | (None, a2) \<Rightarrow>
                    (let ks = keys a2;
                         contentArray = map export_line (cleanKeys ks);
                         content = header a2 @ concat contentArray
                     in case writeFileSync w content of
                          (None, w') \<Rightarrow>
                            (let a3 = log Info [LStr ''Generated @atomic! '', LNum (length ks),
                                                LStr '' files add to '',
                                                LStr (resolvedOutput a2)] a2
                             in (Returned (Generated (keys a3)), a3, w'))
                        | (Some err, w') \<Rightarrow>
                            (Returned Empty,
                             log Trace [LErr err]
                               (log Error
                                  [LStr (''Error writing '' @ [CHR 0x27] @ ''index.ts''
                                         @ [CHR 0x27]),
                                   LErr err] a2),
                             w')))))"

section \<open>Notions used to state the properties\<close>

text \<open>The walk both \<open>getComponents\<close> and \<open>check\<close> start: \<open>this.files = {}\<close> followed by
  \<open>readDirectory\<close> on the resolved base directory with the configured options. \<open>scan\<close>
  is what the walk throws, if anything, and the keys of \<open>this.files\<close> it leaves.\<close>

definition walk :: "world \<Rightarrow> Atomic \<Rightarrow> fs_error option \<times> string list \<times> RegExp" where
  "walk w a =
     readDirectory (base_node w) (resolvedBase a) (scanSubDirectories a) (regularExpression a) []"

definition scan :: "world \<Rightarrow> Atomic \<Rightarrow> fs_error option \<times> string list" where
  "scan w a = (fst (walk w a), fst (snd (walk w a)))"

text \<open>An expression without the \<open>g\<close> and \<open>y\<close> flags has no memory; a string matches it
  when the search from the start finds a match.\<close>

definition stateless :: "RegExp \<Rightarrow> bool" where
  "stateless re = (\<not> global re \<and> \<not> sticky re)"

definition matches :: "RegExp \<Rightarrow> string \<Rightarrow> bool" where
  "matches re s = (exec re 0 s \<noteq> None)"

text \<open>\<open>file_in r n d p\<close>: \<open>p\<close> is the full path of a file of the tree \<open>n\<close> mounted at
  \<open>d\<close>, reached through directories that can be listed; below the top level only when
  \<open>r\<close> (recursive) holds.\<close>

inductive file_in :: "bool \<Rightarrow> node \<Rightarrow> string \<Rightarrow> string \<Rightarrow> bool" for r :: bool where
  top: "(name, File) \<in> set es \<Longrightarrow> file_in r (Dir es) d (resolve d name)"
| deep: "r \<Longrightarrow> (name, c) \<in> set es \<Longrightarrow> file_in r c (resolve d name) p
         \<Longrightarrow> file_in r (Dir es) d p"



text \<open>The segments of a path, separated by \<open>/\<close>.\<close>

fun segments :: "string \<Rightarrow> string list" where
  "segments [] = [[]]"
| "segments (c # cs) =
     (if c = CHR ''/'' then [] # segments cs
      else (case segments cs of [] \<Rightarrow> [[c]] | s # ss \<Rightarrow> (c # s) # ss))"

text \<open>
  The derivation as the specification words it (section 4.2): the component name is the
  last segment once the file name is stripped; the import specifier is \<open>./\<close> followed by
  the last two segments before the file name, joined by \<open>/\<close>. A path with too few
  segments has no such name or specifier.
\<close>

definition spec_componentName :: "string \<Rightarrow> string option" where
  "spec_componentName p =
     (case rev (segments p) of
        file # parent # _ \<Rightarrow> Some parent
      | _ \<Rightarrow> None)"

definition spec_importSpecifier :: "string \<Rightarrow> string option" where
  "spec_importSpecifier p =
     (case rev (segments p) of
        file # parent # grand # _ \<Rightarrow> Some (''./'' @ grand @ ''/'' @ parent)
      | _ \<Rightarrow> None)"

text \<open>A text without line terminator: the dot matches each of its characters.\<close>

fun terminator_free :: "string \<Rightarrow> bool" where
  "terminator_free [] = True"
| "terminator_free (c # cs) = (\<not> line_terminator_at (c # cs) \<and> terminator_free cs)"

abbreviation slashes :: "string \<Rightarrow> nat" where
  "slashes s \<equiv> length (filter (\<lambda>c. c = CHR ''/'') s)"

text \<open>The parts of the two expressions of \<open>cleanKeys\<close> behind the leading
  \<^verbatim>\<open>^.+\<close>.\<close>

definition tail_re :: "atom list" where
  "tail_re = [Plus NotSlash, GClose] @ lit ''/index.tsx''"

definition name_rest :: "atom list" where
  "name_rest = [Opt CHR ''.'', Chr CHR ''/'', GOpen] @ tail_re"

definition from_tail :: "atom list" where
  "from_tail = [Plus NotSlash, Chr CHR ''/''] @ tail_re"

definition from_rest :: "atom list" where
  "from_rest = [Opt CHR ''.'', Chr CHR ''/'', GOpen] @ from_tail"

section \<open>Examples\<close>

text \<open>
  A project at \<open>/p/src\<close> with its components and the generated file \<open>index.ts\<close>, and
  the plugin as a run over the components \<open>Button\<close> and \<open>Card\<close> leaves it.
\<close>

definition button :: string where
  "button = ''/p/src/components/Button/index.tsx''"

definition card :: string where
  "card = ''/p/src/components/Card/index.tsx''"

definition tabs :: string where
  "tabs = ''/p/src/components/Tabs/index.tsx''"

definition component :: "string \<Rightarrow> string \<times> node" where
  "component name = (name, Dir [(''index.tsx'', File), (''style.css'', File)])"

definition project :: "(string \<times> node) list \<Rightarrow> world" where
  "project cs =
     \<lparr> base_node = Dir [(''components'', Dir cs), (''index.ts'', File)],
       out_access = None, out_write_failure = None, out_content = [] \<rparr>"

definition plugin :: Atomic where
  "plugin = (new_Atomic ''/p/src'' ''/p/src/index.ts'')
              \<lparr>keys := [button, card], files := [button, card]\<rparr>"

text \<open>The same disk without the base directory (and so without the output file),
  with a regular file where the base directory should be, without the output file
  only, with a component directory that cannot be listed, with a dangling link among
  the components, and with no room left for the output file beyond four bytes.\<close>

definition missing_base :: world where
  "missing_base =
     \<lparr> base_node = Absent ENOENT, out_access = Some ENOENT, out_write_failure = None,
       out_content = [] \<rparr>"

definition base_is_file :: world where
  "base_is_file =
     \<lparr> base_node = File, out_access = Some ENOTDIR, out_write_failure = None,
       out_content = [] \<rparr>"

definition missing_output :: world where
  "missing_output =
     \<lparr> base_node = Dir [(''components'', Dir [component ''Button'', component ''Card''])],
       out_access = Some ENOENT, out_write_failure = None, out_content = [] \<rparr>"

definition locked_project :: world where
  "locked_project =
     project [component ''Button'', component ''Card'', (''Secret'', Locked EACCES [])]"


definition full_disk :: world where
  "full_disk =
     (project [component ''Button'', component ''Card'', component ''Tabs''])
       \<lparr>out_write_failure := Some (ENOSPC, Some 4), out_content := ''OLD''\<rparr>"

text \<open>The plugin before its first run, with a one-line header.\<close>

definition fresh :: Atomic where
  "fresh = (new_Atomic ''/p/src'' ''/p/src/index.ts'')\<lparr>header := ''// generated'' @ [CHR 0x0A]\<rparr>"

text \<open>A plugin whose option is \<^verbatim>\<open>/index\.tsx$/g\<close>, with the components directory itself
  as base and the output file beside it.\<close>

definition index_tsx_g :: RegExp where
  "index_tsx_g = regexp (lit ''index.tsx'' @ [Eol]) True"

definition components_dir :: world where
  "components_dir =
     \<lparr> base_node = Dir [(''Button'', Dir [(''index.tsx'', File)]),
                        (''Card'', Dir [(''index.tsx'', File)]),
                        (''Tabs'', Dir [(''index.tsx'', File)])],
       out_access = None, out_write_failure = None, out_content = [] \<rparr>"

definition global_plugin :: Atomic where
  "global_plugin =
     (new_Atomic ''/p/src/components'' ''/p/src/index.ts'')
       \<lparr>header := ''// generated'' @ [CHR 0x0A], regularExpression := index_tsx_g\<rparr>"

section \<open>The walk, entry by entry\<close>

lemma forEach_file_File:
  "forEach_file ((nm, File) # es) d sub re fs =
     (if fst (test re (resolve d nm))
      then forEach_file es d sub (snd (test re (resolve d nm))) (set_key fs (resolve d nm))
      else forEach_file es d sub (snd (test re (resolve d nm))) fs)"
  by (simp add: Let_def split: prod.splits)

lemma forEach_file_Dir:
  "forEach_file ((nm, Dir cs) # es) d sub re fs =
     (if sub then
        (case forEach_file cs (resolve d nm) sub re fs of
           (Some err, fs', re') \<Rightarrow> (Some err, fs', re')
         | (None, fs', re') \<Rightarrow> forEach_file es d sub re' fs')
      else forEach_file es d sub re fs)"
  by (simp add: Let_def)

lemma forEach_file_Locked:
  "forEach_file ((nm, Locked err cs) # es) d sub re fs =
     (if sub then (Some err, fs, re) else forEach_file es d sub re fs)"
  by (simp add: Let_def)

lemma forEach_file_Absent:
  "forEach_file ((nm, Absent err) # es) d sub re fs = (Some err, fs, re)"
  by simp

lemmas forEach_file_node [simp] =
  forEach_file_File forEach_file_Dir forEach_file_Locked forEach_file_Absent

declare forEach_file.simps(2) [simp del]

lemma walk_induct:
  assumes "\<And>es d sub re fs. Q es d sub re fs \<Longrightarrow> P (Dir es) d sub re fs"
    and "\<And>d sub re fs. P File d sub re fs"
    and "\<And>err es d sub re fs. P (Locked err es) d sub re fs"
    and "\<And>err d sub re fs. P (Absent err) d sub re fs"
    and "\<And>d sub re fs. Q [] d sub re fs"
    and "\<And>nm es d sub re fs.
           (fst (test re (resolve d nm)) \<Longrightarrow>
              Q es d sub (snd (test re (resolve d nm))) (set_key fs (resolve d nm))) \<Longrightarrow>
           (\<not> fst (test re (resolve d nm)) \<Longrightarrow> Q es d sub (snd (test re (resolve d nm))) fs) \<Longrightarrow>
           Q ((nm, File) # es) d sub re fs"
    and "\<And>nm cs es d sub re fs.
           (sub \<Longrightarrow> P (Dir cs) (resolve d nm) sub re fs) \<Longrightarrow>
           (\<And>fs' re'. sub \<Longrightarrow>
              readDirectory (Dir cs) (resolve d nm) sub re fs = (None, fs', re') \<Longrightarrow>
              Q es d sub re' fs') \<Longrightarrow>
           (\<not> sub \<Longrightarrow> Q es d sub re fs) \<Longrightarrow>
           Q ((nm, Dir cs) # es) d sub re fs"
    and "\<And>nm err cs es d sub re fs.
           (\<not> sub \<Longrightarrow> Q es d sub re fs) \<Longrightarrow> Q ((nm, Locked err cs) # es) d sub re fs"
    and "\<And>nm err es d sub re fs. Q ((nm, Absent err) # es) d sub re fs"
  shows "P n d sub re fs" and "Q es d sub re fs"
proof (induction n d sub re fs and es d sub re fs rule: readDirectory_forEach_file.induct)
  case (1 es directory sub re fs)
  then show ?case by (rule assms(1))
next
  case (2 directory sub re fs)
  show ?case by (rule assms(2))
next
  case (3 err es directory sub re fs)
  show ?case by (rule assms(3))
next
  case (4 err directory sub re fs)
  show ?case by (rule assms(4))
next
  case (5 directory sub re fs)
  show ?case by (rule assms(5))
next
  case (6 nm n es directory sub re fs)
  note IH = "6.IH"
  show ?case
  proof (cases n)
    case File
    then have s: "statSync_isDirectory n = Inr False" by simp
    show ?thesis unfolding File
    proof (rule assms(6))
      assume "fst (test re (resolve directory nm))"
      then show "Q es directory sub (snd (test re (resolve directory nm)))
          (set_key fs (resolve directory nm))"
        using IH(4) [OF refl s refl prod.collapse] by simp
    next
      assume "\<not> fst (test re (resolve directory nm))"
      then show "Q es directory sub (snd (test re (resolve directory nm))) fs"
        using IH(5) [OF refl s refl prod.collapse] by simp
    qed
  next
    case (Dir cs)
    then have s: "statSync_isDirectory n = Inr True" by simp
    show ?thesis unfolding Dir
    proof (rule assms(7))
      assume sub
      then show "P (Dir cs) (resolve directory nm) sub re fs"
        using IH(1) [OF refl s refl] Dir by simp
    next
      fix fs' re'
      assume sub and r: "readDirectory (Dir cs) (resolve directory nm) sub re fs = (None, fs', re')"
      from r have "(None, (fs', re')) = readDirectory n (resolve directory nm) sub re fs"
        using Dir by simp
      from IH(2) [OF refl s refl \<open>sub\<close> this refl refl]
      show "Q es directory sub re' fs'" .
    next
      assume "\<not> sub"
      then show "Q es directory sub re fs"
        using IH(3) [OF refl s refl] by simp
    qed
  next
    case (Locked err cs)
    then have s: "statSync_isDirectory n = Inr True" by simp
    show ?thesis unfolding Locked
    proof (rule assms(8))
      assume "\<not> sub"
      then show "Q es directory sub re fs"
        using IH(3) [OF refl s refl] by simp
    qed
  next
    case (Absent err)
    show ?thesis unfolding Absent by (rule assms(9))
  qed
qed

section \<open>What the walk collects\<close>

inductive_simps file_in_Dir: "file_in r (Dir es) d p"
inductive_simps file_in_File [simp]: "file_in r File d p"
inductive_simps file_in_Locked [simp]: "file_in r (Locked err es) d p"
inductive_simps file_in_Absent [simp]: "file_in r (Absent err) d p"

lemma file_in_Nil [simp]: "\<not> file_in r (Dir []) d p"
  by (simp add: file_in_Dir)

lemma file_in_Cons:
  "file_in r (Dir ((name, c) # es)) d p \<longleftrightarrow>
     (c = File \<and> p = resolve d name) \<or> (r \<and> file_in r c (resolve d name) p)
     \<or> file_in r (Dir es) d p"
  by (auto simp: file_in_Dir)

lemma set_set_key [simp]: "set (set_key fs p) = insert p (set fs)"
  by (auto simp: set_key_def)

lemma test_stateless: "stateless re \<Longrightarrow> test re s = (matches re s, re)"
  by (simp add: test_def stateless_def matches_def Let_def split: option.splits)

lemma walk_sound:
  "set (fst (snd (readDirectory n d sub re fs))) \<subseteq> set fs \<union> {p. file_in sub n d p}"
  "set (fst (snd (forEach_file es d sub re fs))) \<subseteq> set fs \<union> {p. file_in sub (Dir es) d p}"
proof (induct n d sub re fs and es d sub re fs rule: walk_induct)
  case (6 nm es d sub re fs)
  then show ?case
    by (cases "fst (test re (resolve d nm))") (auto simp: forEach_file_File file_in_Cons)
next
  case (7 nm cs es d sub re fs)
  show ?case
  proof (cases sub)
    case True
    obtain e fs' re' where r: "forEach_file cs (resolve d nm) sub re fs = (e, fs', re')"
      by (cases "forEach_file cs (resolve d nm) sub re fs")
    have 1: "set fs' \<subseteq> set fs \<union> {p. file_in sub (Dir cs) (resolve d nm) p}"
      using 7(1) [OF True] r by simp
    show ?thesis
    proof (cases e)
      case None
      have 2: "set (fst (snd (forEach_file es d sub re' fs')))
          \<subseteq> set fs' \<union> {p. file_in sub (Dir es) d p}"
        using 7(2) [OF True] r None by simp
      have "forEach_file ((nm, Dir cs) # es) d sub re fs = forEach_file es d sub re' fs'"
        using r None True by simp
      with 1 2 True show ?thesis by (auto simp: file_in_Cons)
    next
      case (Some err)
      have "forEach_file ((nm, Dir cs) # es) d sub re fs = (Some err, fs', re')"
        using r Some True by simp
      with 1 True show ?thesis by (auto simp: file_in_Cons)
    qed
  next
    case False
    with 7(3) show ?thesis
      by (auto simp: file_in_Cons)
  qed
next
  case (8 nm err cs es d sub re fs)
  then show ?case
    by (cases sub) (auto simp: forEach_file_Locked file_in_Cons)
qed simp_all


lemma walk_stateless:
  "stateless re \<Longrightarrow> snd (snd (readDirectory n d sub re fs)) = re"
  "stateless re \<Longrightarrow> snd (snd (forEach_file es d sub re fs)) = re"
proof (induct n d sub re fs and es d sub re fs rule: walk_induct)
  case (6 nm es d sub re fs)
  then show ?case
    by (cases "matches re (resolve d nm)") (simp_all add: forEach_file_File test_stateless)
next
  case (7 nm cs es d sub re fs)
  show ?case
  proof (cases sub)
    case True
    obtain e fs' re' where r: "forEach_file cs (resolve d nm) sub re fs = (e, fs', re')"
      by (cases "forEach_file cs (resolve d nm) sub re fs")
    have 1: "re' = re"
      using 7(1) [OF True 7(4)] r by simp
    show ?thesis
    proof (cases e)
      case None
      have 2: "snd (snd (forEach_file es d sub re' fs')) = re'"
        using 7(2) [OF True] r None 7(4) 1 by simp
      have "forEach_file ((nm, Dir cs) # es) d sub re fs = forEach_file es d sub re' fs'"
        using r None True by simp
      with 1 2 show ?thesis by simp
    next
      case (Some err)
      have "forEach_file ((nm, Dir cs) # es) d sub re fs = (Some err, fs', re')"
        using r Some True by simp
      with 1 show ?thesis by simp
    qed
  next
    case False
    with 7(3,4) show ?thesis
      by simp
  qed
next
  case (8 nm err cs es d sub re fs)
  then show ?case
    by (cases sub) (simp_all add: forEach_file_Locked)
qed simp_all


section \<open>Multiset equality\<close>

lemma length_filter_count: "length (filter (\<lambda>e. e = v) xs) = count (mset xs) v"
  by (induction xs) auto

lemma set_fold_newSet:
  "set (fold (\<lambda>x acc. if x \<in> set acc then acc else acc @ [x]) xs acc0) = set acc0 \<union> set xs"
  by (induction xs arbitrary: acc0) auto

lemma set_newSet: "set (newSet xs) = set xs"
  by (simp add: newSet_def set_fold_newSet)

lemma forOf_iff: "forOf vs a b \<longleftrightarrow> (\<forall>v\<in>set vs. count (mset a) v = count (mset b) v)"
  by (induction vs) (auto simp: length_filter_count Let_def)

lemma equalsIgnoreOrder_iff: "equalsIgnoreOrder a b \<longleftrightarrow> mset a = mset b"
proof
  assume eq: "equalsIgnoreOrder a b"
  then have cnt: "\<forall>v\<in>set a \<union> set b. count (mset a) v = count (mset b) v"
    by (auto simp: equalsIgnoreOrder_def forOf_iff set_newSet split: if_splits)
  show "mset a = mset b"
  proof (rule multiset_eqI)
    fix v
    show "count (mset a) v = count (mset b) v"
    proof (cases "v \<in> set a \<union> set b")
      case True
      with cnt show ?thesis by blast
    next
      case False
      then have "count (mset a) v = 0" and "count (mset b) v = 0"
        by simp_all
      then show ?thesis by (simp only:)
    qed
  qed
next
  assume m: "mset a = mset b"
  then have "length a = length b" by (rule mset_eq_length)
  with m show "equalsIgnoreOrder a b"
    by (simp add: equalsIgnoreOrder_def forOf_iff)
qed


section \<open>The first loop and the outcome of \<open>check\<close>\<close>

lemma forEach_key_frame:
  "snd (forEach_key w ks (c, a)) = a\<lparr>logger := logger (snd (forEach_key w ks (c, a)))\<rparr>"
proof (induction ks arbitrary: c a)
  case Nil
  show ?case by simp
next
  case (Cons k ks)
  let ?d = "log Debug [LStr [CHR 0xE2, CHR 0x9C, CHR 0x93], LStr (from k)] a"
  let ?i = "log Info [LStr ''Detected component change'', LStr (from k)] a"
  show ?case
  proof (cases "existsAt (base_node w) (resolvedBase a) (key k)")
    case True
    have "snd (forEach_key w ks (c, ?d)) = ?d\<lparr>logger := logger (snd (forEach_key w ks (c, ?d)))\<rparr>"
      by (rule Cons.IH)
    also have "\<dots> = a\<lparr>logger := logger (snd (forEach_key w ks (c, ?d)))\<rparr>"
      by (simp add: log_def)
    finally show ?thesis using True by simp
  next
    case False
    have "snd (forEach_key w ks (True, ?i)) = ?i\<lparr>logger := logger (snd (forEach_key w ks (True, ?i)))\<rparr>"
      by (rule Cons.IH)
    also have "\<dots> = a\<lparr>logger := logger (snd (forEach_key w ks (True, ?i)))\<rparr>"
      by (simp add: log_def)
    finally show ?thesis using False by simp
  qed
qed

lemma forEach_key_changes:
  "fst (forEach_key w ks (c, a)) =
     (c \<or> (\<exists>k\<in>set ks. \<not> existsAt (base_node w) (resolvedBase a) (key k)))"
  by (induction ks arbitrary: c a) (auto simp: log_def)

lemma forEach_key_fields:
  "keys (snd (forEach_key w ks (c, a))) = keys a"
  "files (snd (forEach_key w ks (c, a))) = files a"
  "resolvedBase (snd (forEach_key w ks (c, a))) = resolvedBase a"
  "scanSubDirectories (snd (forEach_key w ks (c, a))) = scanSubDirectories a"
  "regularExpression (snd (forEach_key w ks (c, a))) = regularExpression a"
  by (subst forEach_key_frame, simp)+

lemma missing_cleanKeys:
  "(\<forall>k\<in>set (cleanKeys ks). existsAt n d (key k)) = (\<forall>k\<in>set ks. existsAt n d k)"
  "(\<exists>k\<in>set (cleanKeys ks). \<not> existsAt n d (key k)) = (\<exists>k\<in>set ks. \<not> existsAt n d k)"
  by (simp_all add: cleanKeys_def cleanKey_def)


lemma forEach_key_regularExpression:
  "regularExpression (snd (forEach_key w ks (c, a))) = regularExpression a"
  by (subst forEach_key_frame, simp)

lemma check_outcome:
  "fst (check w a) =
     (if \<exists>k\<in>set (keys a). \<not> existsAt (base_node w) (resolvedBase a) k
      then Returned (True, keys a)
      else case scan w a of
             (Some err, fs) \<Rightarrow> Threw err
           | (None, fileKeys) \<Rightarrow> Returned (mset fileKeys \<noteq> mset (keys a), keys a))"
  by (simp add: check_def Let_def split_beta forEach_key_changes forEach_key_fields
      missing_cleanKeys check_report_def log_def scan_def walk_def equalsIgnoreOrder_iff
      split: prod.splits option.splits)

lemma check_keys: "keys (fst (snd (check w a))) = keys a"
  by (simp add: check_def Let_def split_beta forEach_key_fields check_report_def log_def
      split: prod.splits option.splits)

lemma check_world: "snd (snd (check w a)) = w"
  by (simp add: check_def Let_def split_beta split: prod.splits option.splits)

section \<open>Found files exist\<close>

lemma existsIn_member:
  "(name, c) \<in> set es \<Longrightarrow> existsAt c (resolve d name) p \<Longrightarrow> existsIn es d p"
  by (induction es) auto

lemma file_in_exists: "file_in r n d p \<Longrightarrow> existsAt n d p"
proof (induction rule: file_in.induct)
  case (top name es d)
  have "existsAt File (resolve d name) (resolve d name)" by simp
  with top have "existsIn es d (resolve d name)" by (rule existsIn_member)
  then show ?case by simp
next
  case (deep name c es d p)
  from deep(2) deep.IH have "existsIn es d p" by (rule existsIn_member)
  then show ?case by simp
qed

lemma scan_found_exists:
  assumes "scan w a = (e, fileKeys)" and "k \<in> set fileKeys"
  shows "existsAt (base_node w) (resolvedBase a) k"
proof -
  from assms(1) have "fileKeys = fst (snd (readDirectory (base_node w) (resolvedBase a)
      (scanSubDirectories a) (regularExpression a) []))"
    by (simp add: scan_def walk_def)
  with walk_sound(1) [of "base_node w" "resolvedBase a" "scanSubDirectories a"
      "regularExpression a" "[]"] assms(2)
  have "file_in (scanSubDirectories a) (base_node w) (resolvedBase a) k" by auto
  then show ?thesis by (rule file_in_exists)
qed

section \<open>The matcher on the expressions of \<open>cleanKeys\<close>\<close>

lemma rplus_none:
  "(\<forall>i. 1 \<le> i \<and> i \<le> n \<longrightarrow> rmatch r (k + i) on (grow on g (take i s)) (drop i s) = None)
   \<Longrightarrow> rplus r k on g s n = None"
proof (induction n)
  case 0
  show ?case by simp
next
  case (Suc n)
  have "rmatch r (k + Suc n) on (grow on g (take (Suc n) s)) (drop (Suc n) s) = None"
    using Suc.prems [rule_format, of "Suc n"] by simp
  moreover have "rplus r k on g s n = None"
    using Suc by simp
  ultimately show ?case by simp
qed

lemma rplus_first:
  assumes "1 \<le> j" and "j \<le> n"
    and "rmatch r (k + j) on (grow on g (take j s)) (drop j s) = Some m"
    and "\<forall>i. j < i \<and> i \<le> n \<longrightarrow> rmatch r (k + i) on (grow on g (take i s)) (drop i s) = None"
  shows "rplus r k on g s n = Some m"
  using assms
proof (induction n)
  case 0
  then show ?case by simp
next
  case (Suc n)
  show ?case
  proof (cases "j = Suc n")
    case True
    with Suc.prems(3) show ?thesis by simp
  next
    case False
    with Suc.prems have "j \<le> n" by simp
    moreover have "rmatch r (k + Suc n) on (grow on g (take (Suc n) s)) (drop (Suc n) s) = None"
      using Suc.prems(4) [rule_format, of "Suc n"] \<open>j \<le> n\<close> by simp
    ultimately show ?thesis using Suc by simp
  qed
qed

lemma rplus_elim:
  "rplus r k on g s n = Some m \<Longrightarrow>
     \<exists>j. 1 \<le> j \<and> j \<le> n \<and> rmatch r (k + j) on (grow on g (take j s)) (drop j s) = Some m"
proof (induction n)
  case 0
  then show ?case by simp
next
  case (Suc n)
  show ?case
  proof (cases "rmatch r (k + Suc n) on (grow on g (take (Suc n) s)) (drop (Suc n) s)")
    case None
    with Suc obtain j where "1 \<le> j" "j \<le> n"
      "rmatch r (k + j) on (grow on g (take j s)) (drop j s) = Some m"
      by auto
    then show ?thesis by (intro exI [of _ j]) simp
  next
    case (Some m')
    with Suc.prems have "m' = m" by simp
    with Some show ?thesis by (intro exI [of _ "Suc n"]) simp
  qed
qed

lemma slashes_drop: "slashes (drop i s) \<le> slashes s"
proof -
  have "slashes s = slashes (take i s) + slashes (drop i s)"
    by (metis append_take_drop_id filter_append length_append)
  then show ?thesis by simp
qed

lemma slashes_pos: "CHR ''/'' \<in> set s \<Longrightarrow> 1 \<le> slashes s"
  by (induction s) auto

lemma slashes_none: "CHR ''/'' \<notin> set s \<Longrightarrow> slashes s = 0"
  by (induction s) auto

lemma cls_run_NotSlash:
  "CHR ''/'' \<notin> set N \<Longrightarrow> cls_run NotSlash (N @ CHR ''/'' # t) = length N"
  by (induction N) auto

lemma dot_run_prefix:
  "terminator_free Q \<Longrightarrow> length Q \<le> dot_run (Q @ CHR ''/'' # t)"
proof (induction Q)
  case Nil
  show ?case by simp
next
  case (Cons c cs)
  then have "\<not> line_terminator_at (c # cs)" and "terminator_free cs" by simp_all
  then have "\<not> line_terminator_at ((c # cs) @ CHR ''/'' # t)"
    by (cases cs; cases "tl cs") (auto simp: line_terminator_at_def)
  with Cons.IH \<open>terminator_free cs\<close> show ?case by simp
qed

lemma tail_re_match:
  assumes "N \<noteq> []" and "CHR ''/'' \<notin> set N"
  shows "rmatch tail_re k True g (N @ ''/index.tsx'') = Some (g @ N, [])"
proof -
  obtain n where n: "length N = Suc n" using assms(1) by (cases N) auto
  have "cls_run NotSlash (N @ ''/index.tsx'') = length N"
    using cls_run_NotSlash [OF assms(2)] by simp
  then show ?thesis
    by (simp add: tail_re_def lit_def n grow_def del: cls_run.simps)
qed

lemma tail_re_needs_slash:
  assumes "rmatch tail_re k on g u = Some m"
  shows "CHR ''/'' \<in> set u"
proof -
  from assms obtain j where
    j: "rmatch (GClose # lit ''/index.tsx'') (k + j) on (grow on g (take j u)) (drop j u) = Some m"
    by (auto simp: tail_re_def dest: rplus_elim)
  then have "\<exists>v. drop j u = CHR ''/'' # v"
    by (cases "drop j u") (auto simp: lit_def split: if_splits)
  then show ?thesis by (metis in_set_dropD list.set_intros(1))
qed

lemma componentName_re_split: "componentName_re = [Bol, Plus AnyChar] @ name_rest"
  by (simp add: componentName_re_def name_rest_def tail_re_def)

lemma from_re_split: "from_re = [Bol, Plus AnyChar] @ from_rest"
  by (simp add: from_re_def from_rest_def from_tail_def tail_re_def)

lemma name_rest_match:
  assumes "N \<noteq> []" and "CHR ''/'' \<notin> set N"
  shows "rmatch name_rest k False g (CHR ''/'' # N @ ''/index.tsx'') = Some (N, [])"
  using tail_re_match [OF assms, of "Suc k" "[]"]
  by (simp add: name_rest_def grow_def)

lemma name_rest_needs:
  assumes "rmatch name_rest k on g t = Some m"
  shows "2 \<le> slashes t"
proof -
  from assms obtain u k' on' g' where t: "t = CHR ''/'' # u \<or> t = CHR ''.'' # CHR ''/'' # u"
    and u: "rmatch tail_re k' on' g' u = Some m"
    by (auto simp: name_rest_def split: list.splits if_splits option.splits)
  from tail_re_needs_slash [OF u] have "1 \<le> slashes u" by (rule slashes_pos)
  with t show ?thesis by auto
qed

lemma from_tail_match:
  assumes "G \<noteq> []" and "CHR ''/'' \<notin> set G" and "N \<noteq> []" and "CHR ''/'' \<notin> set N"
  shows "rmatch from_tail k True g (G @ CHR ''/'' # N @ ''/index.tsx'')
           = Some (g @ G @ CHR ''/'' # N, [])"
proof -
  obtain n where n: "length G = Suc n" using assms(1) by (cases G) auto
  have "cls_run NotSlash (G @ CHR ''/'' # N @ ''/index.tsx'') = length G"
    by (rule cls_run_NotSlash [OF assms(2)])
  then show ?thesis
    using tail_re_match [OF assms(3,4), of "Suc (k + Suc n)" "g @ G @ ''/''"]
    by (simp add: from_tail_def n grow_def del: cls_run.simps)
qed

lemma from_tail_needs:
  assumes "rmatch from_tail k on g u = Some m"
  shows "2 \<le> slashes u"
proof -
  from assms obtain j where
    j: "rmatch (Chr CHR ''/'' # tail_re) (k + j) on (grow on g (take j u)) (drop j u) = Some m"
    by (auto simp: from_tail_def dest: rplus_elim)
  then obtain v k' on' g' where d: "drop j u = CHR ''/'' # v"
    and v: "rmatch tail_re k' on' g' v = Some m"
    by (cases "drop j u") (auto split: if_splits)
  from tail_re_needs_slash [OF v] have "1 \<le> slashes v" by (rule slashes_pos)
  with d have "2 \<le> slashes (drop j u)" by simp
  with slashes_drop [of j u] show ?thesis by simp
qed

lemma from_rest_match:
  assumes "G \<noteq> []" and "CHR ''/'' \<notin> set G" and "N \<noteq> []" and "CHR ''/'' \<notin> set N"
  shows "rmatch from_rest k False g (CHR ''/'' # G @ CHR ''/'' # N @ ''/index.tsx'')
           = Some (G @ CHR ''/'' # N, [])"
  using from_tail_match [OF assms, of "Suc k" "[]"]
  by (simp add: from_rest_def grow_def)

lemma from_rest_needs:
  assumes "rmatch from_rest k on g t = Some m"
  shows "3 \<le> slashes t"
proof -
  from assms obtain u k' on' g' where t: "t = CHR ''/'' # u \<or> t = CHR ''.'' # CHR ''/'' # u"
    and u: "rmatch from_tail k' on' g' u = Some m"
    by (auto simp: from_rest_def split: list.splits if_splits option.splits)
  from from_tail_needs [OF u] t show ?thesis by auto
qed

text \<open>The greedy dot-plus in front: it settles on the longest prefix after which the rest
  of the expression matches.\<close>

lemma anchored_plus:
  assumes Q: "Q \<noteq> []" "length Q \<le> dot_run (Q @ t)"
    and hit: "rmatch r (length Q) False [] t = Some m"
    and miss: "\<And>i. 0 < i \<Longrightarrow> rmatch r (length Q + i) False [] (drop i t) = None"
  shows "rmatch ([Bol, Plus AnyChar] @ r) 0 False [] (Q @ t) = Some m"
proof -
  let ?n = "dot_run (Q @ t)"
  have "rplus r 0 False [] (Q @ t) ?n = Some m"
  proof (rule rplus_first [where j = "length Q"])
    show "1 \<le> length Q" using Q(1) by (cases Q) auto
    show "length Q \<le> ?n" by (rule Q(2))
    show "rmatch r (0 + length Q) False (grow False [] (take (length Q) (Q @ t)))
            (drop (length Q) (Q @ t)) = Some m"
      using hit by (simp add: grow_def)
    show "\<forall>i. length Q < i \<and> i \<le> ?n \<longrightarrow>
            rmatch r (0 + i) False (grow False [] (take i (Q @ t))) (drop i (Q @ t)) = None"
    proof (intro allI impI)
      fix i assume "length Q < i \<and> i \<le> ?n"
      then have "0 < i - length Q" by simp
      from miss [OF this] \<open>length Q < i \<and> i \<le> ?n\<close>
      show "rmatch r (0 + i) False (grow False [] (take i (Q @ t))) (drop i (Q @ t)) = None"
        by (simp add: grow_def)
    qed
  qed
  then show ?thesis by simp
qed

lemma componentName_match:
  assumes "Q \<noteq> []" and "terminator_free Q"
    and "N \<noteq> []" and "CHR ''/'' \<notin> set N"
  shows "rmatch componentName_re 0 False [] (Q @ CHR ''/'' # N @ ''/index.tsx'') = Some (N, [])"
  unfolding componentName_re_split
proof (rule anchored_plus [OF assms(1) dot_run_prefix [OF assms(2)]])
  show "rmatch name_rest (length Q) False [] (CHR ''/'' # N @ ''/index.tsx'') = Some (N, [])"
    by (rule name_rest_match [OF assms(3,4)])
next
  fix i :: nat assume "0 < i"
  then obtain i' where i: "i = Suc i'" by (cases i) auto
  have "slashes (drop i (CHR ''/'' # N @ ''/index.tsx'')) \<le> slashes (N @ ''/index.tsx'')"
    unfolding i by (simp only: drop_Suc_Cons slashes_drop)
  also have "\<dots> = 1" using assms(4) by (simp add: slashes_none)
  finally have few: "slashes (drop i (CHR ''/'' # N @ ''/index.tsx'')) < 2" by simp
  show "rmatch name_rest (length Q + i) False [] (drop i (CHR ''/'' # N @ ''/index.tsx'')) = None"
  proof (cases "rmatch name_rest (length Q + i) False [] (drop i (CHR ''/'' # N @ ''/index.tsx''))")
    case None
    then show ?thesis .
  next
    case (Some m)
    from name_rest_needs [OF Some] few show ?thesis by simp
  qed
qed

lemma from_match:
  assumes "P \<noteq> []" and "terminator_free P"
    and "G \<noteq> []" and "CHR ''/'' \<notin> set G" and "N \<noteq> []" and "CHR ''/'' \<notin> set N"
  shows "rmatch from_re 0 False [] (P @ CHR ''/'' # G @ CHR ''/'' # N @ ''/index.tsx'')
           = Some (G @ CHR ''/'' # N, [])"
  unfolding from_re_split
proof (rule anchored_plus [OF assms(1) dot_run_prefix [OF assms(2)]])
  show "rmatch from_rest (length P) False [] (CHR ''/'' # G @ CHR ''/'' # N @ ''/index.tsx'')
          = Some (G @ CHR ''/'' # N, [])"
    by (rule from_rest_match [OF assms(3-6)])
next
  fix i :: nat assume "0 < i"
  then obtain i' where i: "i = Suc i'" by (cases i) auto
  let ?t = "G @ CHR ''/'' # N @ ''/index.tsx''"
  have "slashes (drop i (CHR ''/'' # ?t)) \<le> slashes ?t"
    unfolding i by (simp only: drop_Suc_Cons slashes_drop)
  also have "\<dots> = 2" using assms(4,6) by (simp add: slashes_none)
  finally have few: "slashes (drop i (CHR ''/'' # ?t)) < 3" by simp
  show "rmatch from_rest (length P + i) False [] (drop i (CHR ''/'' # ?t)) = None"
  proof (cases "rmatch from_rest (length P + i) False [] (drop i (CHR ''/'' # ?t))")
    case None
    then show ?thesis .
  next
    case (Some m)
    from from_rest_needs [OF Some] few show ?thesis by simp
  qed
qed

section \<open>Segments of a path\<close>

lemma segments_nonempty: "segments s \<noteq> []"
  by (induction s) (auto split: list.splits)

lemma segments_plain: "CHR ''/'' \<notin> set s \<Longrightarrow> segments s = [s]"
  by (induction s) auto

lemma segments_slash: "segments (xs @ CHR ''/'' # ys) = segments xs @ segments ys"
proof (induction xs)
  case Nil
  show ?case by simp
next
  case (Cons c xs)
  obtain s ss where "segments xs = s # ss"
    using segments_nonempty [of xs] by (cases "segments xs") auto
  with Cons show ?case by simp
qed

lemma spec_componentName_shape:
  assumes "CHR ''/'' \<notin> set N"
  shows "spec_componentName (Q @ ''/'' @ N @ ''/index.tsx'') = Some N"
proof -
  have "segments (Q @ ''/'' @ N @ ''/index.tsx'') = segments Q @ [N, ''index.tsx'']"
    using assms by (simp add: segments_slash segments_plain)
  then show ?thesis by (simp add: spec_componentName_def)
qed

lemma spec_importSpecifier_shape:
  assumes "CHR ''/'' \<notin> set G" and "CHR ''/'' \<notin> set N"
  shows "spec_importSpecifier (P @ ''/'' @ G @ ''/'' @ N @ ''/index.tsx'')
           = Some (''./'' @ G @ ''/'' @ N)"
proof -
  have "segments (P @ ''/'' @ G @ ''/'' @ N @ ''/index.tsx'')
          = segments P @ [G, N, ''index.tsx'']"
    using assms by (simp add: segments_slash segments_plain)
  then show ?thesis by (simp add: spec_importSpecifier_def)
qed

lemma componentName_shape:
  assumes "Q \<noteq> []" and "terminator_free Q" and "N \<noteq> []" and "CHR ''/'' \<notin> set N"
  shows "componentName (cleanKey (Q @ ''/'' @ N @ ''/index.tsx'')) = N"
proof -
  have "rmatch componentName_re 0 False [] (Q @ CHR ''/'' # N @ ''/index.tsx'') = Some (N, [])"
    by (rule componentName_match [OF assms])
  then show ?thesis by (simp add: cleanKey_def regex_replace_def)
qed

lemma from_shape:
  assumes "P \<noteq> []" and "terminator_free P"
    and "G \<noteq> []" and "CHR ''/'' \<notin> set G" and "N \<noteq> []" and "CHR ''/'' \<notin> set N"
  shows "from (cleanKey (P @ ''/'' @ G @ ''/'' @ N @ ''/index.tsx'')) = ''./'' @ G @ ''/'' @ N"
proof -
  have "rmatch from_re 0 False [] (P @ CHR ''/'' # G @ CHR ''/'' # N @ ''/index.tsx'')
          = Some (G @ CHR ''/'' # N, [])"
    by (rule from_match [OF assms])
  then show ?thesis by (simp add: cleanKey_def regex_replace_def)
qed

section \<open>The outcome of \<open>run\<close>\<close>

lemma getComponents_walk:
  "getComponents w a =
     (case walk w a of
        (Some err, fs, re') \<Rightarrow>
          (Some err, (log Info [LStr ''Get Components...'', LStr (resolvedBase a)] a)
                       \<lparr>files := fs, regularExpression := re'\<rparr>)
      | (None, fs, re') \<Rightarrow>
          (None, (log Info [LStr ''Get Components...'', LStr (resolvedBase a)] a)
                   \<lparr>files := fs, regularExpression := re', keys := fs\<rparr>))"
  by (simp add: getComponents_def walk_def log_def Let_def split: prod.splits option.splits)

lemma walk_log [simp]: "walk w (log l args a) = walk w a"
  by (simp add: walk_def log_def)

lemma scan_log [simp]: "scan w (log l args a) = scan w a"
  by (simp add: scan_def)

lemma walk_logger [simp]: "walk w (a\<lparr>logger := l\<rparr>) = walk w a"
  by (simp add: walk_def)

lemma scan_logger [simp]: "scan w (a\<lparr>logger := l\<rparr>) = scan w a"
  by (simp add: scan_def)

lemma run_outcome:
  "fst (run w a) =
     (if accessSync (base_node w) \<noteq> None \<or> out_access w \<noteq> None then Returned Empty
      else case scan w a of
             (Some err, fs) \<Rightarrow> Threw err
           | (None, fileKeys) \<Rightarrow>
               (case out_write_failure w of
                  None \<Rightarrow> Returned (Generated fileKeys)
                | Some x \<Rightarrow> Returned Empty))"
  by (auto simp: run_def getComponents_walk scan_def writeFileSync_def Let_def log_def
      split: prod.splits option.splits)

lemma run_world:
  "snd (snd (run w a)) =
     (if accessSync (base_node w) = None \<and> out_access w = None \<and> fst (scan w a) = None
      then snd (writeFileSync w
             (header a @ concat (map export_line (cleanKeys (snd (scan w a))))))
      else w)"
  by (simp add: run_def getComponents_walk scan_def writeFileSync_def Let_def log_def
      split: prod.splits option.splits)

lemma run_keys:
  "keys (fst (snd (run w a))) =
     (if accessSync (base_node w) = None \<and> out_access w = None \<and> fst (scan w a) = None
      then snd (scan w a) else keys a)"
  by (simp add: run_def getComponents_walk scan_def writeFileSync_def Let_def log_def
      split: prod.splits option.splits)

lemma run_config:
  "resolvedBase (fst (snd (run w a))) = resolvedBase a"
  "resolvedOutput (fst (snd (run w a))) = resolvedOutput a"
  "header (fst (snd (run w a))) = header a"
  "scanSubDirectories (fst (snd (run w a))) = scanSubDirectories a"
  by (simp_all add: run_def getComponents_walk writeFileSync_def Let_def log_def
      split: prod.splits option.splits)

lemma run_regularExpression:
  "regularExpression (fst (snd (run w a))) =
     (if accessSync (base_node w) = None \<and> out_access w = None
      then snd (snd (walk w a)) else regularExpression a)"
  by (simp add: run_def getComponents_walk writeFileSync_def Let_def log_def
      split: prod.splits option.splits)

lemma walk_keeps_stateless:
  "stateless (regularExpression a) \<Longrightarrow> snd (snd (walk w a)) = regularExpression a"
  by (simp add: walk_def walk_stateless)

lemma run_keeps_stateless:
  "stateless (regularExpression a) \<Longrightarrow> regularExpression (fst (snd (run w a))) = regularExpression a"
  by (simp add: run_regularExpression walk_keeps_stateless)

lemma scan_cong:
  "base_node w' = base_node w \<Longrightarrow> resolvedBase a' = resolvedBase a \<Longrightarrow>
   scanSubDirectories a' = scanSubDirectories a \<Longrightarrow> regularExpression a' = regularExpression a
   \<Longrightarrow> scan w' a' = scan w a"
  by (simp add: scan_def walk_def)

lemma run_world_fields:
  "base_node (snd (snd (run w a))) = base_node w"
  "out_access (snd (snd (run w a))) = out_access w"
  "out_write_failure (snd (snd (run w a))) = out_write_failure w"
  by (auto simp: run_world writeFileSync_def split: option.splits)

lemma scan_after_run:
  "stateless (regularExpression a) \<Longrightarrow>
     scan (snd (snd (run w a))) (fst (snd (run w a))) = scan w a"
  by (rule scan_cong) (simp_all add: run_world_fields run_config run_keeps_stateless)


lemma cleanKeys_nth: "i < length ks \<Longrightarrow> cleanKeys ks ! i = cleanKey (ks ! i)"
  by (simp add: cleanKeys_def)

lemma run_stopped_base:
  assumes "accessSync (base_node w) = Some err"
  shows "run w a =
     (Returned Empty,
      a\<lparr>logger := logger a @
          [(Info, [LStr ''Run...'']),
           (Error, [LStr ''Unable to find '', LStr (resolvedBase a),
                    LStr '' check your settings base'']),
           (Trace, [LErr err])]\<rparr>,
      w)"
  using assms by (simp add: run_def log_def Let_def)

lemma run_stopped_output:
  assumes "accessSync (base_node w) = None" and "out_access w = Some err"
  shows "run w a =
     (Returned Empty,
      a\<lparr>logger := logger a @
          [(Info, [LStr ''Run...'']),
           (Error, [LStr ''Unable to find '', LStr (resolvedOutput a),
                    LStr '' check your [output] and [base] options'']),
           (Trace, [LErr err])]\<rparr>,
      w)"
  using assms by (simp add: run_def log_def Let_def)

lemma run_unwritten:
  assumes "accessSync (base_node w) = None" and "out_access w = None"
    and "walk w a = (None, fileKeys, re')" and "out_write_failure w = Some (err, written)"
  shows "run w a =
     (Returned Empty,
      a\<lparr>files := fileKeys, regularExpression := re', keys := fileKeys,
        logger := logger a @
          [(Info, [LStr ''Run...'']),
           (Info, [LStr ''Get Components...'', LStr (resolvedBase a)]),
           (Error, [LStr (''Error writing '' @ [CHR 0x27] @ ''index.ts'' @ [CHR 0x27]), LErr err]),
           (Trace, [LErr err])]\<rparr>,
      (case written of
         None \<Rightarrow> w
       | Some n \<Rightarrow>
           w\<lparr>out_content := take n (header a @ concat (map export_line (cleanKeys fileKeys)))\<rparr>))"
  using assms
  by (cases written) (simp_all add: run_def getComponents_walk writeFileSync_def log_def Let_def)

lemma writeFileSync_twice:
  "out_write_failure w' = out_write_failure w \<Longrightarrow> w' = snd (writeFileSync w data) \<Longrightarrow>
     snd (writeFileSync w' data) = w'"
  by (auto simp: writeFileSync_def split: option.splits)

lemma stateless_flags:
  "\<not> global re \<Longrightarrow> \<not> sticky re \<Longrightarrow> stateless re"
  by (simp add: stateless_def)


section \<open>The examples, evaluated\<close>

lemmas example_defs =
  project_def component_def plugin_def new_Atomic_def button_def card_def tabs_def

lemmas regex_eval =
  regex_replace_def default_regularExpression_def componentName_re_def
  from_re_def lit_def grow_def line_terminator_at_def
  test_def regexp_def atoms_exec_def matches_def Let_def

lemma scan_two:
  "scan (project [component ''Button'', component ''Card'']) plugin = (None, [button, card])"
  by (simp add: scan_def walk_def example_defs regex_eval resolve_def set_key_def)

lemma scan_swapped:
  "scan (project [component ''Card'', component ''Button'']) plugin = (None, [card, button])"
  by (simp add: scan_def walk_def example_defs regex_eval resolve_def set_key_def)

lemma scan_three:
  "scan (project [component ''Button'', component ''Card'', component ''Tabs'']) plugin
     = (None, [button, card, tabs])"
  by (simp add: scan_def walk_def example_defs regex_eval resolve_def set_key_def)

lemma scan_locked: "scan locked_project plugin = (Some EACCES, [button, card])"
  by (simp add: scan_def walk_def locked_project_def example_defs regex_eval resolve_def
      set_key_def)


lemma exists_two:
  "existsAt (base_node (project (component ''Button'' # component ''Card'' # cs))) ''/p/src'' button"
  "existsAt (base_node (project (component ''Button'' # component ''Card'' # cs))) ''/p/src'' card"
  "existsAt (base_node (project [component ''Card'', component ''Button''])) ''/p/src'' button"
  "existsAt (base_node (project [component ''Card'', component ''Button''])) ''/p/src'' card"
  "\<not> existsAt (base_node (project [component ''Card''])) ''/p/src'' button"
  by (simp_all add: example_defs resolve_def)

lemma plugin_fields:
  "keys plugin = [button, card]" "resolvedBase plugin = ''/p/src''"
  "resolvedBase fresh = ''/p/src''" "keys fresh = []"
  "header fresh = ''// generated'' @ [CHR 0x0A]"
  "scanSubDirectories plugin" "scanSubDirectories fresh"
  "stateless (regularExpression plugin)" "stateless (regularExpression fresh)"
  by (simp_all add: plugin_def fresh_def new_Atomic_def stateless_def regexp_def)

lemma check_two:
  "fst (check (project [component ''Button'', component ''Card'']) plugin)
     = Returned (False, [button, card])"
  using exists_two(1,2) [of "[]"]
  by (simp add: check_outcome scan_two plugin_fields)

lemma scan_fresh: "scan w fresh = scan w plugin"
  by (rule scan_cong) (simp_all add: plugin_def fresh_def new_Atomic_def)

lemma exists_locked:
  "\<forall>k\<in>set (keys plugin). existsAt (base_node locked_project) (resolvedBase plugin) k"
  using exists_two(1,2) [of "[(''Secret'', Locked EACCES [])]"]
  by (simp add: locked_project_def plugin_fields)

lemma cleanKeys_two:
  "cleanKeys [button, card] =
     [\<lparr>key = button, componentName = ''Button'', from = ''./components/Button''\<rparr>,
      \<lparr>key = card, componentName = ''Card'', from = ''./components/Card''\<rparr>]"
  by (simp add: cleanKeys_def cleanKey_def button_def card_def regex_eval)

lemma cleanKeys_tabs:
  "cleanKeys [button, tabs] =
     [\<lparr>key = button, componentName = ''Button'', from = ''./components/Button''\<rparr>,
      \<lparr>key = tabs, componentName = ''Tabs'', from = ''./components/Tabs''\<rparr>]"
  "cleanKeys [card] =
     [\<lparr>key = card, componentName = ''Card'', from = ''./components/Card''\<rparr>]"
  by (simp_all add: cleanKeys_def cleanKey_def button_def card_def tabs_def regex_eval)

lemma walk_global_first:
  "readDirectory (base_node components_dir) ''/p/src/components'' True index_tsx_g []
     = (None, [button, tabs], index_tsx_g\<lparr>lastIndex := 32\<rparr>)"
  by (simp add: components_dir_def index_tsx_g_def button_def tabs_def regex_eval resolve_def
      set_key_def)

lemma walk_global_second:
  "readDirectory (base_node components_dir) ''/p/src/components'' True
       (index_tsx_g\<lparr>lastIndex := 32\<rparr>) []
     = (None, [card], index_tsx_g\<lparr>lastIndex := 0\<rparr>)"
  by (simp add: components_dir_def index_tsx_g_def card_def regex_eval resolve_def
      set_key_def)


lemma scan_global_first: "scan components_dir global_plugin = (None, [button, tabs])"
  using walk_global_first by (simp add: scan_def walk_def global_plugin_def new_Atomic_def)



lemma run_global_first:
  "keys (fst (snd (run components_dir global_plugin))) = [button, tabs]"
  "regularExpression (fst (snd (run components_dir global_plugin))) = index_tsx_g\<lparr>lastIndex := 32\<rparr>"
  "snd (snd (run components_dir global_plugin)) =
     components_dir\<lparr>out_content := ''// generated'' @ [CHR 0x0A]
       @ ''export { default as Button } from '' @ [CHR 0x27] @ ''./components/Button''
       @ [CHR 0x27, CHR 0x0A]
       @ ''export { default as Tabs } from '' @ [CHR 0x27] @ ''./components/Tabs''
       @ [CHR 0x27, CHR 0x0A]\<rparr>"
proof -
  have w: "walk components_dir global_plugin = (None, [button, tabs], index_tsx_g\<lparr>lastIndex := 32\<rparr>)"
    using walk_global_first by (simp add: walk_def global_plugin_def new_Atomic_def)
  have g: "accessSync (base_node components_dir) = None" "out_access components_dir = None"
    "out_write_failure components_dir = None"
    "header global_plugin = ''// generated'' @ [CHR 0x0A]"
    by (simp_all add: components_dir_def global_plugin_def new_Atomic_def)
  show "keys (fst (snd (run components_dir global_plugin))) = [button, tabs]"
    by (simp add: run_keys scan_global_first g)
  show "regularExpression (fst (snd (run components_dir global_plugin)))
      = index_tsx_g\<lparr>lastIndex := 32\<rparr>"
    by (simp add: run_regularExpression w g)
  show "snd (snd (run components_dir global_plugin)) =
     components_dir\<lparr>out_content := ''// generated'' @ [CHR 0x0A]
       @ ''export { default as Button } from '' @ [CHR 0x27] @ ''./components/Button''
       @ [CHR 0x27, CHR 0x0A]
       @ ''export { default as Tabs } from '' @ [CHR 0x27] @ ''./components/Tabs''
       @ [CHR 0x27, CHR 0x0A]\<rparr>"
    by (simp add: run_world scan_global_first g cleanKeys_tabs export_line_def writeFileSync_def)
qed

lemma scan_global_second:
  "scan (snd (snd (run components_dir global_plugin))) (fst (snd (run components_dir global_plugin)))
     = (None, [card])"
proof -
  have "resolvedBase (fst (snd (run components_dir global_plugin))) = ''/p/src/components''"
    "scanSubDirectories (fst (snd (run components_dir global_plugin)))"
    by (simp_all add: run_config global_plugin_def new_Atomic_def)
  then show ?thesis
    using walk_global_second
    by (simp add: scan_def walk_def run_world_fields run_global_first(2))
qed

section \<open>Change detection\<close>



text \<open>
  C2. The comparison ignores order: \<open>equalsIgnoreOrder\<close> is true of any two lists with
  the same elements in the same multiplicities, so a walk that finds the stored keys in
  another order is reported as no change.
\<close>

theorem reorder_is_no_change:
  "(mset xs = mset ys \<longrightarrow> equalsIgnoreOrder xs ys)
   \<and> (scan w a = (None, fileKeys) \<and> mset fileKeys = mset (keys a)
        \<longrightarrow> fst (check w a) = Returned (False, keys a))"
proof (intro conjI impI)
  assume "mset xs = mset ys"
  then show "equalsIgnoreOrder xs ys" by (simp add: equalsIgnoreOrder_iff)
next
  assume h: "scan w a = (None, fileKeys) \<and> mset fileKeys = mset (keys a)"
  then have "set fileKeys = set (keys a)" by (metis set_mset_mset)
  moreover have "\<forall>k\<in>set fileKeys. existsAt (base_node w) (resolvedBase a) k"
    using h scan_found_exists [of w a None fileKeys] by blast
  ultimately have "\<forall>k\<in>set (keys a). existsAt (base_node w) (resolvedBase a) k"
    by simp
  with h show "fst (check w a) = Returned (False, keys a)"
    by (simp add: check_outcome)
qed

theorem reorder_is_no_change_witness:
  "mset [card, button] = mset [button, card] \<and> equalsIgnoreOrder [card, button] [button, card]
   \<and> scan (project [component ''Card'', component ''Button'']) plugin = (None, [card, button])
   \<and> fst (check (project [component ''Card'', component ''Button'']) plugin)
       = Returned (False, [button, card])"
  using reorder_is_no_change [of "[card, button]" "[button, card]"
      "project [component ''Card'', component ''Button'']" plugin "[card, button]"]
    scan_swapped
  by (simp add: plugin_fields)

text \<open>
  C9. \<open>check\<close> changes neither the stored keys nor the disk, so it writes no output
  file: after any call the \<open>keys\<close> field is what it was before, and the callback
  receives the change flag together with that unchanged key list.
\<close>

theorem check_leaves_keys:
  "keys (fst (snd (check w a))) = keys a \<and> snd (snd (check w a)) = w
   \<and> (\<forall>changes ks. fst (check w a) = Returned (changes, ks) \<longrightarrow> ks = keys a)"
proof (intro conjI allI impI)
  show "keys (fst (snd (check w a))) = keys a" by (rule check_keys)
  show "snd (snd (check w a)) = w" by (rule check_world)
next
  fix changes ks
  assume "fst (check w a) = Returned (changes, ks)"
  then show "ks = keys a"
    by (auto simp: check_outcome split: if_splits prod.splits option.splits)
qed

theorem check_leaves_keys_witness:
  "fst (check (project [component ''Button'', component ''Card'']) plugin)
     = Returned (False, [button, card])
   \<and> [button, card] = keys plugin
   \<and> keys (fst (snd (check (project [component ''Button'', component ''Card'']) plugin)))
       = keys plugin
   \<and> snd (snd (check (project [component ''Button'', component ''Card'']) plugin))
       = project [component ''Button'', component ''Card'']"
  using check_leaves_keys [of "project [component ''Button'', component ''Card'']" plugin]
    check_two
  by blast

section \<open>Derived entries\<close>

text \<open>
  C3, as the code has it. The entry of \<open>cleanKeys\<close> is a function of the key alone. For a
  key \<open>Q/N/index.tsx\<close>, where \<open>Q\<close> is not empty and holds no line terminator and \<open>N\<close> is a
  non-empty segment (no \<open>/\<close>), \<open>componentName\<close> is \<open>N\<close>, the directory holding the file.
  For a key \<open>P/G/M/index.tsx\<close>, where \<open>P\<close> is not empty and holds no line terminator and
  \<open>G\<close> and \<open>M\<close> are non-empty segments, \<open>from\<close> is \<open>./G/M\<close>, the last two segments before
  the file name. These are the name and the specifier the specification describes.
\<close>

theorem cleanKeys_component_entry:
  assumes "i < length ks"
  shows "key (cleanKeys ks ! i) = ks ! i
     \<and> (ks ! i = Q @ ''/'' @ N @ ''/index.tsx'' \<and> Q \<noteq> [] \<and> terminator_free Q
          \<and> N \<noteq> [] \<and> CHR ''/'' \<notin> set N
        \<longrightarrow> componentName (cleanKeys ks ! i) = N \<and> spec_componentName (ks ! i) = Some N)
     \<and> (ks ! i = P @ ''/'' @ G @ ''/'' @ M @ ''/index.tsx'' \<and> P \<noteq> [] \<and> terminator_free P
          \<and> G \<noteq> [] \<and> CHR ''/'' \<notin> set G \<and> M \<noteq> [] \<and> CHR ''/'' \<notin> set M
        \<longrightarrow> from (cleanKeys ks ! i) = ''./'' @ G @ ''/'' @ M
            \<and> spec_importSpecifier (ks ! i) = Some (''./'' @ G @ ''/'' @ M))"
proof (intro conjI impI)
  show "key (cleanKeys ks ! i) = ks ! i"
    using assms by (simp add: cleanKeys_nth cleanKey_def)
next
  assume h: "ks ! i = Q @ ''/'' @ N @ ''/index.tsx'' \<and> Q \<noteq> [] \<and> terminator_free Q
          \<and> N \<noteq> [] \<and> CHR ''/'' \<notin> set N"
  then show "componentName (cleanKeys ks ! i) = N"
    using assms componentName_shape [of Q N] by (simp add: cleanKeys_nth)
  from h show "spec_componentName (ks ! i) = Some N"
    using spec_componentName_shape [of N Q] by simp
next
  assume h: "ks ! i = P @ ''/'' @ G @ ''/'' @ M @ ''/index.tsx'' \<and> P \<noteq> [] \<and> terminator_free P
          \<and> G \<noteq> [] \<and> CHR ''/'' \<notin> set G \<and> M \<noteq> [] \<and> CHR ''/'' \<notin> set M"
  then show "from (cleanKeys ks ! i) = ''./'' @ G @ ''/'' @ M"
    using assms from_shape [of P G M] by (simp add: cleanKeys_nth)
  from h show "spec_importSpecifier (ks ! i) = Some (''./'' @ G @ ''/'' @ M)"
    using spec_importSpecifier_shape [of G M P] by simp
qed

text \<open>The key of \<open>Button\<close> in the project, and \<open>/app/Button/index.tsx\<close>, whose component
  name is right although its \<open>from\<close> is not.\<close>

theorem cleanKeys_component_entry_witness:
  "cleanKeys [button, card] ! 0
     = \<lparr>key = button, componentName = ''Button'', from = ''./components/Button''\<rparr>
   \<and> spec_componentName button = Some ''Button''
   \<and> spec_importSpecifier button = Some ''./components/Button''
   \<and> componentName (cleanKeys [''/app/Button/index.tsx''] ! 0) = ''Button''"
  using cleanKeys_component_entry [of 0 "[button, card]" "''/p/src/components''" "''Button''"
      "''/p/src''" "''components''" "''Button''"]
    cleanKeys_component_entry [of 0 "[''/app/Button/index.tsx'']" "''/app''" "''Button''"]
  by (simp add: button_def line_terminator_at_def)

text \<open>
  C3 as stated, for every matched path, fails; each path below matches the default
  expression. For \<open>/app/Button/index.tsx\<close> the last two segments before the file name are
  \<open>app\<close> and \<open>Button\<close>, but the expression for \<open>from\<close> needs a non-empty text before
  them, finds no match, and \<open>replace\<close> returns the key itself. For \<open>/Button/index.tsx\<close>
  the same happens to \<open>componentName\<close>. For a path with a line feed in a directory name
  the leading \<^verbatim>\<open>.+\<close> cannot reach the component directory, and \<open>componentName\<close> is again
  the key itself.
\<close>

theorem cleanKeys_entry_counterexample:
  "matches (regexp default_regularExpression False) ''/app/Button/index.tsx''
   \<and> spec_importSpecifier ''/app/Button/index.tsx'' = Some ''./app/Button''
   \<and> map from (cleanKeys [''/app/Button/index.tsx'']) = [''/app/Button/index.tsx'']
   \<and> matches (regexp default_regularExpression False) ''/Button/index.tsx''
   \<and> spec_componentName ''/Button/index.tsx'' = Some ''Button''
   \<and> map componentName (cleanKeys [''/Button/index.tsx'']) = [''/Button/index.tsx'']
   \<and> matches (regexp default_regularExpression False)
        (''/p/a'' @ [CHR 0x0A] @ ''b/Button/index.tsx'')
   \<and> spec_componentName (''/p/a'' @ [CHR 0x0A] @ ''b/Button/index.tsx'') = Some ''Button''
   \<and> map componentName (cleanKeys [''/p/a'' @ [CHR 0x0A] @ ''b/Button/index.tsx''])
       = [''/p/a'' @ [CHR 0x0A] @ ''b/Button/index.tsx'']"
  by (simp add: cleanKeys_def cleanKey_def spec_componentName_def spec_importSpecifier_def
      regex_eval)

section \<open>The scan\<close>




section \<open>Generation\<close>

text \<open>
  C5. When the base directory and the output path are there, the walk completes and the
  write succeeds, \<open>run\<close> returns the keys and the output file holds the header, once
  and as it is, followed by one line
  \<^verbatim>\<open>export { default as <componentName> } from '<from>'\<close> per key in the order of the
  walk, each ended by a line feed, and nothing else.
\<close>

theorem run_output_content:
  assumes "accessSync (base_node w) = None" and "out_access w = None"
    and "out_write_failure w = None" and "scan w a = (None, fileKeys)"
  shows "fst (run w a) = Returned (Generated fileKeys)
         \<and> out_content (snd (snd (run w a)))
             = header a @ concat (map (\<lambda>k. ''export { default as '' @ componentName k
                 @ '' } from '' @ [CHR 0x27] @ from k @ [CHR 0x27, CHR 0x0A]) (cleanKeys fileKeys))"
proof -
  have e: "export_line = (\<lambda>k. ''export { default as '' @ componentName k
                 @ '' } from '' @ [CHR 0x27] @ from k @ [CHR 0x27, CHR 0x0A])"
    by (rule ext) (simp add: export_line_def)
  from assms show ?thesis
    unfolding e [symmetric] by (simp add: run_outcome run_world writeFileSync_def)
qed

text \<open>The example of the specification: the components \<open>Button\<close> and \<open>Card\<close>, the header
  \<^verbatim>\<open>// generated\<close>.\<close>

theorem run_output_content_witness:
  "fst (run (project [component ''Button'', component ''Card'']) fresh)
     = Returned (Generated [button, card])
   \<and> out_content (snd (snd (run (project [component ''Button'', component ''Card'']) fresh)))
     = ''// generated'' @ [CHR 0x0A]
       @ ''export { default as Button } from '' @ [CHR 0x27] @ ''./components/Button''
       @ [CHR 0x27, CHR 0x0A]
       @ ''export { default as Card } from '' @ [CHR 0x27] @ ''./components/Card''
       @ [CHR 0x27, CHR 0x0A]"
  using run_output_content [of "project [component ''Button'', component ''Card'']" fresh
      "[button, card]"]
  by (simp add: scan_fresh scan_two cleanKeys_two plugin_fields) (simp add: project_def)

text \<open>
  C6, as the code has it. When the expression of the option has neither the \<open>g\<close> nor the
  \<open>y\<close> flag, \<open>run\<close> is idempotent: a second call right after the first, with nothing
  changed on disk in between, leaves the disk (and so the content of the output file) as
  the first call left it, and gives the same outcome and the same keys.
\<close>

theorem run_idempotent:
  assumes "\<not> global (regularExpression a)" and "\<not> sticky (regularExpression a)"
  shows
  "snd (snd (run (snd (snd (run w a))) (fst (snd (run w a))))) = snd (snd (run w a))
   \<and> fst (run (snd (snd (run w a))) (fst (snd (run w a)))) = fst (run w a)
   \<and> keys (fst (snd (run (snd (snd (run w a))) (fst (snd (run w a))))))
       = keys (fst (snd (run w a)))"
proof (intro conjI)
  let ?w1 = "snd (snd (run w a))" and ?a1 = "fst (snd (run w a))"
  let ?data = "header a @ concat (map export_line (cleanKeys (snd (scan w a))))"
  have st: "stateless (regularExpression a)"
    using assms by (rule stateless_flags)
  note same = scan_after_run [OF st, of w] run_world_fields [of w a] run_config [of w a]
  have "snd (snd (run ?w1 ?a1)) =
     (if accessSync (base_node w) = None \<and> out_access w = None \<and> fst (scan w a) = None
      then snd (writeFileSync ?w1 ?data) else ?w1)"
    unfolding run_world [of ?w1 ?a1] same ..
  also have "\<dots> = ?w1"
  proof (cases "accessSync (base_node w) = None \<and> out_access w = None \<and> fst (scan w a) = None")
    case True
    then have "?w1 = snd (writeFileSync w ?data)" by (simp add: run_world)
    with run_world_fields(3) [of w a] have "snd (writeFileSync ?w1 ?data) = ?w1"
      by (rule writeFileSync_twice)
    then show ?thesis by (simp only: if_P [OF True])
  next
    case False
    then show ?thesis by (rule if_not_P)
  qed
  finally show "snd (snd (run ?w1 ?a1)) = ?w1" .
  show "fst (run ?w1 ?a1) = fst (run w a)"
    unfolding run_outcome [of ?w1 ?a1] same unfolding run_outcome [of w a] ..
  have "keys (fst (snd (run ?w1 ?a1))) =
     (if accessSync (base_node w) = None \<and> out_access w = None \<and> fst (scan w a) = None
      then snd (scan w a) else keys ?a1)"
    unfolding run_keys [of ?w1 ?a1] same ..
  also have "\<dots> = keys ?a1"
    by (simp add: run_keys)
  finally show "keys (fst (snd (run ?w1 ?a1))) = keys ?a1" .
qed

theorem run_idempotent_witness:
  "snd (snd (run (snd (snd (run (project [component ''Button'', component ''Card'']) fresh)))
                 (fst (snd (run (project [component ''Button'', component ''Card'']) fresh)))))
     = (project [component ''Button'', component ''Card''])
         \<lparr>out_content := ''// generated'' @ [CHR 0x0A]
           @ ''export { default as Button } from '' @ [CHR 0x27] @ ''./components/Button''
           @ [CHR 0x27, CHR 0x0A]
           @ ''export { default as Card } from '' @ [CHR 0x27] @ ''./components/Card''
           @ [CHR 0x27, CHR 0x0A]\<rparr>"
proof -
  have f: "\<not> global (regularExpression fresh)" "\<not> sticky (regularExpression fresh)"
    using plugin_fields(9) by (simp_all add: stateless_def)
  have "snd (snd (run (project [component ''Button'', component ''Card'']) fresh))
     = (project [component ''Button'', component ''Card''])
         \<lparr>out_content := ''// generated'' @ [CHR 0x0A]
           @ ''export { default as Button } from '' @ [CHR 0x27] @ ''./components/Button''
           @ [CHR 0x27, CHR 0x0A]
           @ ''export { default as Card } from '' @ [CHR 0x27] @ ''./components/Card''
           @ [CHR 0x27, CHR 0x0A]\<rparr>"
    by (simp add: run_world scan_fresh scan_two cleanKeys_two plugin_fields export_line_def
          writeFileSync_def)
       (simp add: project_def)
  with run_idempotent [OF f, of "project [component ''Button'', component ''Card'']"]
  show ?thesis by simp
qed

text \<open>
  C6 as stated, for every configuration, fails: with \<^verbatim>\<open>/index\.tsx$/g\<close> the first run
  writes the lines of \<open>Button\<close> and \<open>Tabs\<close> and leaves \<open>lastIndex\<close> at the end of the path
  of \<open>Tabs\<close>; the second run, on the same disk, writes the line of \<open>Card\<close> only.
\<close>

theorem run_twice_counterexample:
  "global (regularExpression global_plugin)
   \<and> out_content (snd (snd (run components_dir global_plugin)))
       = ''// generated'' @ [CHR 0x0A]
         @ ''export { default as Button } from '' @ [CHR 0x27] @ ''./components/Button''
         @ [CHR 0x27, CHR 0x0A]
         @ ''export { default as Tabs } from '' @ [CHR 0x27] @ ''./components/Tabs''
         @ [CHR 0x27, CHR 0x0A]
   \<and> out_content (snd (snd (run (snd (snd (run components_dir global_plugin)))
                                (fst (snd (run components_dir global_plugin))))))
       = ''// generated'' @ [CHR 0x0A]
         @ ''export { default as Card } from '' @ [CHR 0x27] @ ''./components/Card''
         @ [CHR 0x27, CHR 0x0A]"
proof -
  let ?w1 = "snd (snd (run components_dir global_plugin))"
  let ?a1 = "fst (snd (run components_dir global_plugin))"
  have g: "accessSync (base_node ?w1) = None" "out_access ?w1 = None"
    "out_write_failure ?w1 = None" "header ?a1 = ''// generated'' @ [CHR 0x0A]"
    by (simp_all add: run_world_fields run_config components_dir_def global_plugin_def
        new_Atomic_def)
  have "out_content (snd (snd (run ?w1 ?a1)))
       = ''// generated'' @ [CHR 0x0A]
         @ ''export { default as Card } from '' @ [CHR 0x27] @ ''./components/Card''
         @ [CHR 0x27, CHR 0x0A]"
    by (simp add: run_world [of ?w1 ?a1] scan_global_second g cleanKeys_tabs export_line_def
        writeFileSync_def)
  moreover have "global (regularExpression global_plugin)"
    by (simp add: global_plugin_def index_tsx_g_def regexp_def)
  ultimately show ?thesis by (simp add: run_global_first(3))
qed

section \<open>Failures\<close>

text \<open>
  C7. If \<open>accessSync\<close> throws on the resolved base directory, or else on the resolved
  output path, \<open>run\<close> stops before the walk: it logs the error it caught, returns the
  empty result without throwing, writes nothing, and leaves \<open>keys\<close> and \<open>files\<close> as they
  were.
\<close>

theorem run_inaccessible:
  assumes "accessSync (base_node w) = Some err
           \<or> (accessSync (base_node w) = None \<and> out_access w = Some err)"
  shows "fst (run w a) = Returned Empty \<and> snd (snd (run w a)) = w
         \<and> keys (fst (snd (run w a))) = keys a \<and> files (fst (snd (run w a))) = files a
         \<and> (\<exists>msg. logger (fst (snd (run w a)))
               = logger a @ [(Info, [LStr ''Run...'']), (Error, msg), (Trace, [LErr err])])"
proof (cases "accessSync (base_node w) = Some err")
  case True
  note r = run_stopped_base [OF True, of a]
  have "\<exists>msg. logger (fst (snd (run w a)))
      = logger a @ [(Info, [LStr ''Run...'']), (Error, msg), (Trace, [LErr err])]"
    unfolding r
    by (intro exI [of _ "[LStr ''Unable to find '', LStr (resolvedBase a),
          LStr '' check your settings base'']"]) simp
  then show ?thesis unfolding r by simp
next
  case False
  with assms have "accessSync (base_node w) = None" and "out_access w = Some err" by simp_all
  note r = run_stopped_output [OF this, of a]
  have "\<exists>msg. logger (fst (snd (run w a)))
      = logger a @ [(Info, [LStr ''Run...'']), (Error, msg), (Trace, [LErr err])]"
    unfolding r
    by (intro exI [of _ "[LStr ''Unable to find '', LStr (resolvedOutput a),
          LStr '' check your [output] and [base] options'']"]) simp
  then show ?thesis unfolding r by simp
qed

text \<open>No base directory; a regular file in its place, so that the output path below it
  gives \<open>ENOTDIR\<close>; no output file.\<close>

theorem run_inaccessible_witness:
  "fst (run missing_base plugin) = Returned Empty
   \<and> snd (snd (run missing_base plugin)) = missing_base
   \<and> keys (fst (snd (run missing_base plugin))) = [button, card]
   \<and> fst (run base_is_file plugin) = Returned Empty
   \<and> (\<exists>msg. logger (fst (snd (run base_is_file plugin)))
         = [(Info, [LStr ''Run...'']), (Error, msg), (Trace, [LErr ENOTDIR])])
   \<and> fst (run missing_output plugin) = Returned Empty
   \<and> snd (snd (run missing_output plugin)) = missing_output
   \<and> keys (fst (snd (run missing_output plugin))) = [button, card]"
  using run_inaccessible [of missing_base ENOENT plugin]
    run_inaccessible [of base_is_file ENOTDIR plugin]
    run_inaccessible [of missing_output ENOENT plugin]
  by (simp add: plugin_fields missing_base_def missing_output_def base_is_file_def)
     (simp add: plugin_def new_Atomic_def)

text \<open>
  C8. If writing the output file fails after a completed walk, \<open>run\<close> logs the error and
  returns the empty result, and \<open>keys\<close> already holds the result of the walk. The file
  is left untouched when it could not be opened, and otherwise holds what was written
  before the failure.
\<close>

theorem run_write_failure:
  assumes "accessSync (base_node w) = None" and "out_access w = None"
    and "scan w a = (None, fileKeys)" and "out_write_failure w = Some (err, written)"
  shows "fst (run w a) = Returned Empty \<and> keys (fst (snd (run w a))) = fileKeys
         \<and> snd (snd (run w a))
             = (case written of
                  None \<Rightarrow> w
                | Some n \<Rightarrow>
                    w\<lparr>out_content :=
                        take n (header a @ concat (map export_line (cleanKeys fileKeys)))\<rparr>)
         \<and> (\<exists>before msg. logger (fst (snd (run w a)))
               = before @ [(Error, msg), (Trace, [LErr err])])"
proof -
  from assms(3) obtain re' where "walk w a = (None, fileKeys, re')"
    by (cases "walk w a") (auto simp: scan_def)
  note r = run_unwritten [OF assms(1,2) this assms(4)]
  have "\<exists>before msg. logger (fst (snd (run w a))) = before @ [(Error, msg), (Trace, [LErr err])]"
    unfolding r
    by (intro exI [of _ "logger a @ [(Info, [LStr ''Run...'']),
           (Info, [LStr ''Get Components...'', LStr (resolvedBase a)])]"]
         exI [of _ "[LStr (''Error writing '' @ [CHR 0x27] @ ''index.ts'' @ [CHR 0x27]), LErr err]"])
       simp
  then show ?thesis unfolding r by simp
qed

theorem run_write_failure_witness:
  "fst (run full_disk plugin) = Returned Empty
   \<and> keys plugin = [button, card]
   \<and> keys (fst (snd (run full_disk plugin))) = [button, card, tabs]
   \<and> out_content full_disk = ''OLD''
   \<and> out_content (snd (snd (run full_disk plugin))) = ''// @''"
proof -
  have s: "scan full_disk plugin = (None, [button, card, tabs])"
    using scan_three
      scan_cong [of full_disk "project [component ''Button'', component ''Card'', component ''Tabs'']"
        plugin plugin]
    by (simp add: full_disk_def)
  have g: "accessSync (base_node full_disk) = None" "out_access full_disk = None"
    "out_write_failure full_disk = Some (ENOSPC, Some 4)" "out_content full_disk = ''OLD''"
    by (simp_all add: full_disk_def project_def)
  from run_write_failure [OF g(1,2) s g(3)] g(4)
  show ?thesis by (simp add: plugin_def new_Atomic_def default_header_def)
qed

text \<open>
  C10, as the code has it. The failures of \<open>accessSync\<close> and \<open>writeFileSync\<close> are caught:
  \<open>run\<close> then returns the empty result, and a missing key in \<open>check\<close> counts as a
  change. An error of \<open>readdirSync\<close> or \<open>statSync\<close> during the walk of an existing base
  directory is not caught: \<open>run\<close> throws exactly when base and output are there and the
  walk throws, \<open>check\<close> on an existing base directory throws exactly when every stored
  key exists and the walk throws, and in both cases the error is the one of the walk.
\<close>

theorem scan_errors_escape:
  "(fst (run w a) = Threw e \<longleftrightarrow>
      accessSync (base_node w) = None \<and> out_access w = None \<and> fst (scan w a) = Some e)
   \<and> (accessSync (base_node w) = None \<longrightarrow>
        (fst (check w a) = Threw e \<longleftrightarrow>
           (\<forall>k\<in>set (keys a). existsAt (base_node w) (resolvedBase a) k)
           \<and> fst (scan w a) = Some e))
   \<and> (accessSync (base_node w) \<noteq> None \<or> out_access w \<noteq> None
        \<or> (fst (scan w a) = None \<and> out_write_failure w \<noteq> None)
      \<longrightarrow> fst (run w a) = Returned Empty)
   \<and> ((\<exists>k\<in>set (keys a). \<not> existsAt (base_node w) (resolvedBase a) k)
      \<longrightarrow> fst (check w a) = Returned (True, keys a))"
proof -
  obtain x fs where sc: "scan w a = (x, fs)" by (cases "scan w a")
  show ?thesis
    unfolding run_outcome check_outcome sc
    by (cases x; cases "out_write_failure w") auto
qed

theorem scan_errors_escape_witness:
  "accessSync (base_node locked_project) = None
   \<and> fst (run locked_project fresh) = Threw EACCES
   \<and> fst (check locked_project fresh) = Threw EACCES
   \<and> fst (run missing_base fresh) = Returned Empty
   \<and> fst (run full_disk fresh) = Returned Empty
   \<and> fst (check (project [component ''Card'']) plugin) = Returned (True, [button, card])"
proof -
  have "scan full_disk fresh = (None, [button, card, tabs])"
    using scan_three
      scan_cong [of full_disk "project [component ''Button'', component ''Card'', component ''Tabs'']"
        plugin plugin]
    by (simp add: full_disk_def scan_fresh)
  then show ?thesis
    using scan_errors_escape [of locked_project fresh EACCES]
      scan_errors_escape [of missing_base fresh]
      scan_errors_escape [of full_disk fresh]
      scan_errors_escape [of "project [component ''Card'']" plugin]
      exists_two(5)
    by (simp add: scan_fresh scan_locked plugin_fields)
       (simp add: locked_project_def project_def missing_base_def full_disk_def)
qed

text \<open>
  C10 as stated, no error of the file system leaves \<open>run\<close> or \<open>check\<close>, fails: once a
  directory that cannot be listed appears beside the two known components, every stored
  key still exists, \<open>check\<close> walks the base directory again, and the error of
  \<open>readdirSync\<close> leaves \<open>check\<close>.
\<close>

theorem check_unreadable_directory_counterexample:
  "fst (check locked_project plugin) = Threw EACCES"
  using exists_locked by (simp add: check_outcome scan_locked)

end
